theory Spec2Isabelle
  imports Complex_Main "HOL-Library.Word"
begin

unbundle bit_operations_syntax

section \<open>Buffers, strings and errors\<close>

text \<open>
  A Node \<open>Buffer\<close> is a list of bytes. A JavaScript string is a sequence of 16-bit code
  units. Every \<open>throw\<close> of the library, and every RangeError that Node's fixed-width
  \<open>Buffer\<close> accessors raise, is a value of \<open>error\<close>.
\<close>

type_synonym byte = "8 word"
type_synonym Buffer = "byte list"
type_synonym jsstring = "16 word list"

datatype error =
    InvalidVersion              \<comment> \<open>"Invalid version identifier"\<close>
  | UnknownCode nat             \<comment> \<open>"Unable to deserialize string, unknown code: " + code\<close>
  | HelperNotDefined jsstring   \<comment> \<open>"Serialized data uses custom helper but it is not defined: " + name\<close>
  | InvalidType string          \<comment> \<open>"Invalid type: " + type\<close>
  | EndOfStream                 \<comment> \<open>"Unexpected end of stream"\<close>
  | InvalidSize nat             \<comment> \<open>"Invalid size encountered: " + b\<close>
  | SizesMustBePositive         \<comment> \<open>"Sizes must be positive"\<close>
  | SizeTooLarge int            \<comment> \<open>"Can not encode size; too large: " + s\<close>
  | RangeError                  \<comment> \<open>Node: value or offset out of range in a Buffer read or write\<close>
  | SyntaxError                 \<comment> \<open>\<open>new RegExp\<close>: the text is no pattern\<close>
  | HelperError string          \<comment> \<open>whatever a registered helper throws\<close>
  | NotModelled                 \<comment> \<open>no error of the library: the step leaves the part of JavaScript modelled here\<close>

section \<open>BufferWriter\<close>

text \<open>
  The writer holds \<open>bufferList\<close>, the segments appended so far; \<open>toBuffer\<close> concatenates
  them. Each method returns the writer with one more segment, or the error it throws.
  \<open>writeUInt8\<close>, \<open>writeUInt16BE\<close> and \<open>writeUInt32BE\<close> of Node check the range of the
  value and throw a RangeError outside of it.
\<close>

type_synonym BufferWriter = "Buffer list"

definition BufferWriter_new :: BufferWriter where
  "BufferWriter_new = []"

definition BufferWriter_buffer :: "Buffer \<Rightarrow> BufferWriter \<Rightarrow> BufferWriter" where
  "BufferWriter_buffer buff w = w @ [buff]"

definition BufferWriter_uint8 :: "int \<Rightarrow> BufferWriter \<Rightarrow> error + BufferWriter" where
  "BufferWriter_uint8 val w =
     (if 0 \<le> val \<and> val \<le> 0xFF then Inr (w @ [[word_of_int val]]) else Inl RangeError)"

definition BufferWriter_uint16 :: "int \<Rightarrow> BufferWriter \<Rightarrow> error + BufferWriter" where
  "BufferWriter_uint16 val w =
     (if 0 \<le> val \<and> val \<le> 0xFFFF
      then Inr (w @ [[word_of_int (val div 0x100), word_of_int val]])
      else Inl RangeError)"

definition BufferWriter_uint32 :: "int \<Rightarrow> BufferWriter \<Rightarrow> error + BufferWriter" where
  "BufferWriter_uint32 val w =
     (if 0 \<le> val \<and> val \<le> 0xFFFFFFFF
      then Inr (w @ [[word_of_int (val div 0x1000000), word_of_int (val div 0x10000),
                      word_of_int (val div 0x100), word_of_int val]])
      else Inl RangeError)"

definition BufferWriter_size :: "int \<Rightarrow> BufferWriter \<Rightarrow> error + BufferWriter" where
  "BufferWriter_size s w =
     (if s < 0 then Inl SizesMustBePositive
      else if s < 0x7F then BufferWriter_uint8 s w
      else if s < 0x3FFF then BufferWriter_uint16 (s OR 0x8000) w
      else if s < 0x1FFFFFFF then BufferWriter_uint32 (s + 0xC0000000) w
      else Inl (SizeTooLarge s))"

text \<open>\<open>Buffer.from(str, "binary")\<close> keeps the low 8 bits of every code unit.\<close>

definition BufferWriter_string :: "jsstring \<Rightarrow> BufferWriter \<Rightarrow> BufferWriter" where
  "BufferWriter_string str w = w @ [map ucast str]"

definition BufferWriter_toBuffer :: "BufferWriter \<Rightarrow> Buffer" where
  "BufferWriter_toBuffer w = concat w"

section \<open>BufferReader\<close>

text \<open>
  The reader is the buffer and the cursor. \<open>slice\<close> clamps to the end of the buffer and
  never throws; \<open>readUInt8\<close>, \<open>readUInt16BE\<close> and \<open>readUInt32BE\<close> throw a RangeError when
  the field does not fit before the end; \<open>readBuffer[offset]\<close> is \<open>undefined\<close> at or past
  the end.
\<close>

record BufferReader =
  readBuffer :: Buffer
  offset :: nat

definition BufferReader_new :: "Buffer \<Rightarrow> nat \<Rightarrow> BufferReader" where
  "BufferReader_new buff off = \<lparr>readBuffer = buff, offset = off\<rparr>"

definition slice :: "Buffer \<Rightarrow> nat \<Rightarrow> nat \<Rightarrow> Buffer" where
  "slice buff start end = take (end - start) (drop start buff)"

definition BufferReader_buffer :: "nat \<Rightarrow> BufferReader \<Rightarrow> Buffer \<times> BufferReader" where
  "BufferReader_buffer len r =
     (slice (readBuffer r) (offset r) (offset r + len), r\<lparr>offset := offset r + len\<rparr>)"

definition BufferReader_peek :: "BufferReader \<Rightarrow> error + byte" where
  "BufferReader_peek r =
     (if offset r < length (readBuffer r) then Inr (readBuffer r ! offset r)
      else Inl EndOfStream)"

definition BufferReader_skip :: "BufferReader \<Rightarrow> BufferReader" where
  "BufferReader_skip r = r\<lparr>offset := offset r + 1\<rparr>"

definition BufferReader_string :: "nat \<Rightarrow> BufferReader \<Rightarrow> jsstring \<times> BufferReader" where
  "BufferReader_string len r =
     (map ucast (slice (readBuffer r) (offset r) (offset r + len)),
      r\<lparr>offset := offset r + len\<rparr>)"

definition BufferReader_uint8 :: "BufferReader \<Rightarrow> error + nat \<times> BufferReader" where
  "BufferReader_uint8 r =
     (if offset r + 1 \<le> length (readBuffer r)
      then Inr (unat (readBuffer r ! offset r), r\<lparr>offset := offset r + 1\<rparr>)
      else Inl RangeError)"

definition BufferReader_uint16 :: "BufferReader \<Rightarrow> error + nat \<times> BufferReader" where
  "BufferReader_uint16 r =
     (if offset r + 2 \<le> length (readBuffer r)
      then Inr (unat (readBuffer r ! offset r) * 0x100 + unat (readBuffer r ! (offset r + 1)),
                r\<lparr>offset := offset r + 2\<rparr>)
      else Inl RangeError)"

definition BufferReader_uint32 :: "BufferReader \<Rightarrow> error + nat \<times> BufferReader" where
  "BufferReader_uint32 r =
     (if offset r + 4 \<le> length (readBuffer r)
      then Inr (unat (readBuffer r ! offset r) * 0x1000000
                  + unat (readBuffer r ! (offset r + 1)) * 0x10000
                  + unat (readBuffer r ! (offset r + 2)) * 0x100
                  + unat (readBuffer r ! (offset r + 3)),
                r\<lparr>offset := offset r + 4\<rparr>)
      else Inl RangeError)"

definition BufferReader_size :: "BufferReader \<Rightarrow> error + nat \<times> BufferReader" where
  "BufferReader_size r =
     (case BufferReader_peek r of
        Inl e \<Rightarrow> Inl e
      | Inr b \<Rightarrow>
          if b AND 0x80 = 0 then BufferReader_uint8 r
          else if b AND 0x40 = 0 then
            (case BufferReader_uint16 r of
               Inl e \<Rightarrow> Inl e
             | Inr (v, r') \<Rightarrow> Inr (v AND 0x3FFF, r'))
          else if b AND 0x20 = 0 then
            (case BufferReader_uint32 r of
               Inl e \<Rightarrow> Inl e
             | Inr (v, r') \<Rightarrow> Inr (v AND 0x1FFFFFFF, r'))
          else Inl (InvalidSize (unat b)))"

section \<open>Values\<close>

text \<open>
  The values the serializer can be handed. A finite number other than the negative zero is
  \<open>VNum\<close> of its mathematical value; the negative zero, \<open>NaN\<close> and the two infinities are
  \<open>VSpecial\<close>. A \<open>Date\<close> is its time value in milliseconds (an invalid date is outside the
  model); a \<open>RegExp\<close> is its \<open>source\<close> and the three flags the serializer reads.

  An array is its slots, \<open>None\<close> for a hole, and its other own enumerable properties; an
  object is the name of its constructor and its own enumerable properties. Properties are
  listed in the order of \<open>Object.keys\<close>, with distinct keys.
\<close>

datatype special = NegativeZero | NaN | PositiveInfinity | NegativeInfinity

datatype jsval =
    VUndefined
  | VNull
  | VBool bool
  | VNum rat
  | VSpecial special
  | VStr jsstring
  | VFunction
  | VSymbol
  | VBuffer Buffer
  | VDate int
  | VRegExp jsstring bool bool bool
  | VArray "jsval option list" "(jsstring \<times> jsval) list"
  | VObject string "(jsstring \<times> jsval) list"

fun typeof :: "jsval \<Rightarrow> string" where
  "typeof VUndefined = ''undefined''"
| "typeof (VBool b) = ''boolean''"
| "typeof (VNum x) = ''number''"
| "typeof (VSpecial s) = ''number''"
| "typeof (VStr s) = ''string''"
| "typeof VFunction = ''function''"
| "typeof VSymbol = ''symbol''"
| "typeof v = ''object''"

text \<open>
  The numbers of JavaScript, as \<open>writeDoubleBE\<close> takes them and \<open>readDoubleBE\<close> gives them,
  and the value that stands for each.
\<close>

datatype double = Finite rat | Special special

definition number :: "double \<Rightarrow> jsval" where
  "number d = (case d of Finite x \<Rightarrow> VNum x | Special s \<Rightarrow> VSpecial s)"

text \<open>
  The two primitives of Node that turn a number into the eight bytes of an IEEE-754 double
  and back are not code of the library; the bit pattern of a number is a parameter.
  \<open>doubleBits\<close> is the pattern of the double nearest to the number. So is the constructor
  \<open>RegExp\<close>: \<open>regExpSource\<close> is the \<open>source\<close> of the pattern that \<open>new RegExp\<close> builds from a
  text, and nothing when the text is no pattern and the constructor throws.
\<close>

record float64 =
  doubleBits :: "double \<Rightarrow> 64 word"
  bitsDouble :: "64 word \<Rightarrow> double"
  regExpSource :: "jsstring \<Rightarrow> jsstring option"

definition BufferWriter_double :: "float64 \<Rightarrow> double \<Rightarrow> BufferWriter \<Rightarrow> BufferWriter" where
  "BufferWriter_double fl val w =
     w @ [map (\<lambda>i. ucast (drop_bit (8 * i) (doubleBits fl val))) [7, 6, 5, 4, 3, 2, 1, 0]]"

definition BufferReader_double :: "float64 \<Rightarrow> BufferReader \<Rightarrow> error + double \<times> BufferReader" where
  "BufferReader_double fl r =
     (if offset r + 8 \<le> length (readBuffer r)
      then Inr (bitsDouble fl (word_rcat (slice (readBuffer r) (offset r) (offset r + 8))),
                r\<lparr>offset := offset r + 8\<rparr>)
      else Inl RangeError)"

record helper =
  name :: jsstring
  checkFn :: "jsval \<Rightarrow> bool"
  toBufferFn :: "jsval \<Rightarrow> BufferWriter \<Rightarrow> error + BufferWriter"
  fromBufferFn :: "BufferReader \<Rightarrow> error + jsval \<times> BufferReader"

definition andThen :: "error + 'a \<Rightarrow> ('a \<Rightarrow> error + 'b) \<Rightarrow> error + 'b" where
  "andThen m f = (case m of Inl e \<Rightarrow> Inl e | Inr x \<Rightarrow> f x)"

section \<open>Serializer: encoding\<close>

definition toBufferInternalBoolean :: "bool \<Rightarrow> BufferWriter \<Rightarrow> error + BufferWriter" where
  "toBufferInternalBoolean thing w =
     (if thing then BufferWriter_uint8 0x74 w else BufferWriter_uint8 0x66 w)"

definition toBufferInternalNumber :: "float64 \<Rightarrow> rat \<Rightarrow> BufferWriter \<Rightarrow> error + BufferWriter" where
  "toBufferInternalNumber fl thing w =
     (if of_int \<lfloor>thing\<rfloor> = thing \<and> thing < 0 \<and> \<bar>thing\<bar> \<le> 0xFF then
        andThen (BufferWriter_uint8 0x2D w) (BufferWriter_uint8 \<lfloor>\<bar>thing\<bar>\<rfloor>)
      else if of_int \<lfloor>thing\<rfloor> = thing \<and> thing < 0 \<and> \<bar>thing\<bar> \<le> 0xFFFF then
        andThen (BufferWriter_uint8 0x69 w) (BufferWriter_uint16 \<lfloor>\<bar>thing\<bar>\<rfloor>)
      else if of_int \<lfloor>thing\<rfloor> = thing \<and> thing < 0 \<and> \<bar>thing\<bar> \<le> 0xFFFFFFFF then
        andThen (BufferWriter_uint8 0x49 w) (BufferWriter_uint32 \<lfloor>\<bar>thing\<bar>\<rfloor>)
      else if of_int \<lfloor>thing\<rfloor> = thing \<and> \<not> thing < 0 \<and> thing \<le> 0xFF then
        andThen (BufferWriter_uint8 0x2B w) (BufferWriter_uint8 \<lfloor>thing\<rfloor>)
      else if of_int \<lfloor>thing\<rfloor> = thing \<and> \<not> thing < 0 \<and> thing \<le> 0xFFFF then
        andThen (BufferWriter_uint8 0x70 w) (BufferWriter_uint16 \<lfloor>thing\<rfloor>)
      else if of_int \<lfloor>thing\<rfloor> = thing \<and> \<not> thing < 0 \<and> thing \<le> 0xFFFFFFFF then
        andThen (BufferWriter_uint8 0x50 w) (BufferWriter_uint32 \<lfloor>thing\<rfloor>)
      else
        andThen (BufferWriter_uint8 0x64 w) (\<lambda>w'. Inr (BufferWriter_double fl (Finite thing) w')))"

text \<open>
  \<open>toBufferInternalNumber\<close> on the other numbers. The negative zero is an integer and is not
  below zero: it is written as the positive 8-bit integer 0. \<open>NaN\<close> is not equal to its
  floor, and no bound of the integer branches holds an infinity: they are written as doubles.
\<close>

definition toBufferInternalNumber_special ::
  "float64 \<Rightarrow> special \<Rightarrow> BufferWriter \<Rightarrow> error + BufferWriter" where
  "toBufferInternalNumber_special fl thing w =
     (if thing = NegativeZero then
        andThen (BufferWriter_uint8 0x2B w) (BufferWriter_uint8 0)
      else
        andThen (BufferWriter_uint8 0x64 w) (\<lambda>w'. Inr (BufferWriter_double fl (Special thing) w')))"

definition toBufferInternalString :: "jsstring \<Rightarrow> BufferWriter \<Rightarrow> error + BufferWriter" where
  "toBufferInternalString thing w =
     andThen (BufferWriter_uint8 0x73 w) (\<lambda>w1.
     andThen (BufferWriter_size (int (length thing)) w1) (\<lambda>w2.
     Inr (BufferWriter_string thing w2)))"

definition toBufferInternalObjectBuffer :: "Buffer \<Rightarrow> BufferWriter \<Rightarrow> error + BufferWriter" where
  "toBufferInternalObjectBuffer thing w =
     andThen (BufferWriter_uint8 0x42 w) (\<lambda>w1.
     andThen (BufferWriter_size (int (length thing)) w1) (\<lambda>w2.
     Inr (BufferWriter_buffer thing w2)))"

text \<open>
  \<open>%\<close> of JavaScript takes the sign of the dividend. On the time values of valid dates
  \<open>Math.floor(seconds / 1000)\<close> is the floor of the exact quotient wherever the range
  check of \<open>uint32\<close> can pass.
\<close>

definition js_rem :: "int \<Rightarrow> int \<Rightarrow> int" where
  "js_rem a b = (if a < 0 then - (\<bar>a\<bar> mod \<bar>b\<bar>) else \<bar>a\<bar> mod \<bar>b\<bar>)"

definition toBufferInternalObjectDate :: "int \<Rightarrow> BufferWriter \<Rightarrow> error + BufferWriter" where
  "toBufferInternalObjectDate getTime w =
     (let ms = js_rem getTime 1000;
          seconds = getTime div 1000
      in if ms \<noteq> 0 then
           andThen (BufferWriter_uint8 0x44 w) (\<lambda>w1.
           andThen (BufferWriter_uint32 seconds w1) (BufferWriter_uint16 ms))
         else
           andThen (BufferWriter_uint8 0x54 w) (BufferWriter_uint32 seconds))"

definition toBufferInternalObjectRegExp ::
  "jsstring \<Rightarrow> bool \<Rightarrow> bool \<Rightarrow> bool \<Rightarrow> BufferWriter \<Rightarrow> error + BufferWriter" where
  "toBufferInternalObjectRegExp source global ignoreCase multiline w =
     andThen (BufferWriter_uint8 0x52 w) (\<lambda>w1.
     andThen (BufferWriter_size (int (length source)) w1) (\<lambda>w2.
     BufferWriter_uint8
       ((if global then 0x01 else 0) + (if ignoreCase then 0x02 else 0)
          + (if multiline then 0x04 else 0))
       (BufferWriter_string source w2)))"

text \<open>
  The loop over the registered helpers in \<open>toBufferInternalObject\<close>: the result of the
  first helper whose \<open>checkFn\<close> accepts the value, \<open>None\<close> when the loop runs out.
\<close>

fun toBufferInternalObject_helpers ::
  "helper list \<Rightarrow> jsval \<Rightarrow> BufferWriter \<Rightarrow> (error + BufferWriter) option" where
  "toBufferInternalObject_helpers [] thing w = None"
| "toBufferInternalObject_helpers (h # hs) thing w =
     (if checkFn h thing then
        Some (andThen (BufferWriter_uint8 0x5A w) (\<lambda>w1.
              andThen (BufferWriter_size (int (length (name h))) w1) (\<lambda>w2.
              toBufferFn h thing (BufferWriter_string (name h) w2))))
      else toBufferInternalObject_helpers hs thing w)"

text \<open>
  Keys: \<open>/^(0|[1-9][0-9]*)$/.test(thing)\<close>, the number \<open>+thing\<close> of a key that passes the
  test, and the key \<open>String(i)\<close> under which \<open>Object.keys\<close> lists the slot \<open>i\<close> of an
  array.
\<close>

definition isDigit :: "16 word \<Rightarrow> bool" where
  "isDigit c = (0x30 \<le> c \<and> c \<le> 0x39)"

definition keyPattern_test :: "jsstring \<Rightarrow> bool" where
  "keyPattern_test s =
     (case s of
        [] \<Rightarrow> False
      | c # cs \<Rightarrow> (c = 0x30 \<and> cs = []) \<or> (0x31 \<le> c \<and> c \<le> 0x39 \<and> list_all isDigit cs))"

definition toNumber :: "jsstring \<Rightarrow> nat" where
  "toNumber s = foldl (\<lambda>a c. 10 * a + (unat c - 48)) 0 s"

fun toString :: "nat \<Rightarrow> jsstring" where
  "toString n = (if n < 10 then [of_nat (48 + n)]
                 else toString (n div 10) @ [of_nat (48 + n mod 10)])"

declare toString.simps [simp del]

definition isUndefinedSlot :: "jsval option \<Rightarrow> bool" where
  "isUndefinedSlot s = (case s of None \<Rightarrow> True | Some v \<Rightarrow> v = VUndefined)"

definition isOwnSlot :: "jsval option \<Rightarrow> bool" where
  "isOwnSlot s = (case s of None \<Rightarrow> False | Some v \<Rightarrow> True)"

text \<open>
  The recursive part of the encoder. \<open>toBufferInternalArray_values\<close> is the loop of the
  dense form over \<open>thing[i]\<close>; \<open>toBufferInternalArray_slots\<close> and \<open>toBufferInternal_pairs\<close>
  are the loop over \<open>Object.keys(thing)\<close>, first over the slots that are own properties,
  then over the other properties.
\<close>

function (sequential)
  toBufferInternal ::
    "float64 \<Rightarrow> helper list \<Rightarrow> jsval \<Rightarrow> BufferWriter \<Rightarrow> error + BufferWriter"
and toBufferInternalArray ::
    "float64 \<Rightarrow> helper list \<Rightarrow> jsval option list \<Rightarrow> (jsstring \<times> jsval) list
       \<Rightarrow> BufferWriter \<Rightarrow> error + BufferWriter"
and toBufferInternalArray_values ::
    "float64 \<Rightarrow> helper list \<Rightarrow> jsval option list \<Rightarrow> BufferWriter \<Rightarrow> error + BufferWriter"
and toBufferInternalArray_slots ::
    "float64 \<Rightarrow> helper list \<Rightarrow> nat \<Rightarrow> jsval option list \<Rightarrow> BufferWriter
       \<Rightarrow> error + BufferWriter"
and toBufferInternal_pairs ::
    "float64 \<Rightarrow> helper list \<Rightarrow> (jsstring \<times> jsval) list \<Rightarrow> BufferWriter
       \<Rightarrow> error + BufferWriter"
and toBufferInternalKey ::
    "float64 \<Rightarrow> helper list \<Rightarrow> jsstring \<Rightarrow> BufferWriter \<Rightarrow> error + BufferWriter"
and toBufferInternalObject ::
    "float64 \<Rightarrow> helper list \<Rightarrow> jsval \<Rightarrow> BufferWriter \<Rightarrow> error + BufferWriter"
and toBufferInternalObjectGeneric ::
    "float64 \<Rightarrow> helper list \<Rightarrow> (jsstring \<times> jsval) list \<Rightarrow> BufferWriter
       \<Rightarrow> error + BufferWriter"
where
  "toBufferInternal fl hs VNull w = BufferWriter_uint8 0x6E w"
| "toBufferInternal fl hs (VArray slots props) w = toBufferInternalArray fl hs slots props w"
| "toBufferInternal fl hs (VBuffer b) w = toBufferInternalObject fl hs (VBuffer b) w"
| "toBufferInternal fl hs (VDate t) w = toBufferInternalObject fl hs (VDate t) w"
| "toBufferInternal fl hs (VRegExp s g i m) w = toBufferInternalObject fl hs (VRegExp s g i m) w"
| "toBufferInternal fl hs (VObject c props) w = toBufferInternalObject fl hs (VObject c props) w"
| "toBufferInternal fl hs (VStr s) w = toBufferInternalString s w"
| "toBufferInternal fl hs (VNum x) w = toBufferInternalNumber fl x w"
| "toBufferInternal fl hs (VSpecial s) w = toBufferInternalNumber_special fl s w"
| "toBufferInternal fl hs (VBool b) w = toBufferInternalBoolean b w"
| "toBufferInternal fl hs thing w = Inl (InvalidType (typeof thing))"

| "toBufferInternalArray fl hs slots props w =
     (if length (filter isOwnSlot slots) + length props = length slots
         \<and> \<not> list_ex isUndefinedSlot slots
      then
        andThen (toBufferInternalArray_values fl hs slots (BufferWriter_string [0x61] w))
          (\<lambda>w'. Inr (BufferWriter_string [0x21] w'))
      else
        andThen (toBufferInternalArray_slots fl hs 0 slots (BufferWriter_string [0x41] w)) (\<lambda>w1.
        andThen (toBufferInternal_pairs fl hs props w1) (\<lambda>w2.
        Inr (BufferWriter_string [0x21] w2))))"

| "toBufferInternalArray_values fl hs [] w = Inr w"
| "toBufferInternalArray_values fl hs (s # rest) w =
     andThen (toBufferInternal fl hs (case s of None \<Rightarrow> VUndefined | Some v \<Rightarrow> v) w)
       (\<lambda>w'. toBufferInternalArray_values fl hs rest w')"

| "toBufferInternalArray_slots fl hs i [] w = Inr w"
| "toBufferInternalArray_slots fl hs i (None # rest) w =
     toBufferInternalArray_slots fl hs (Suc i) rest w"
| "toBufferInternalArray_slots fl hs i (Some v # rest) w =
     andThen (toBufferInternalKey fl hs (toString i) w) (\<lambda>w1.
     andThen (toBufferInternal fl hs v w1) (\<lambda>w2.
     toBufferInternalArray_slots fl hs (Suc i) rest w2))"

| "toBufferInternal_pairs fl hs [] w = Inr w"
| "toBufferInternal_pairs fl hs ((k, v) # rest) w =
     andThen (toBufferInternalKey fl hs k w) (\<lambda>w1.
     andThen (toBufferInternal fl hs v w1) (\<lambda>w2.
     toBufferInternal_pairs fl hs rest w2))"

| "toBufferInternalKey fl hs thing w =
     (if keyPattern_test thing then toBufferInternal fl hs (VNum (of_nat (toNumber thing))) w
      else toBufferInternal fl hs (VStr thing) w)"

| "toBufferInternalObject fl hs (VBuffer b) w =
     (case toBufferInternalObject_helpers hs (VBuffer b) w of
        Some res \<Rightarrow> res
      | None \<Rightarrow> toBufferInternalObjectBuffer b w)"
| "toBufferInternalObject fl hs (VDate t) w =
     (case toBufferInternalObject_helpers hs (VDate t) w of
        Some res \<Rightarrow> res
      | None \<Rightarrow> toBufferInternalObjectDate t w)"
| "toBufferInternalObject fl hs (VRegExp s g i m) w =
     (case toBufferInternalObject_helpers hs (VRegExp s g i m) w of
        Some res \<Rightarrow> res
      | None \<Rightarrow> toBufferInternalObjectRegExp s g i m w)"
| "toBufferInternalObject fl hs (VObject c props) w =
     (case toBufferInternalObject_helpers hs (VObject c props) w of
        Some res \<Rightarrow> res
      | None \<Rightarrow> toBufferInternalObjectGeneric fl hs props w)"

| "toBufferInternalObjectGeneric fl hs props w =
     andThen (toBufferInternal_pairs fl hs props (BufferWriter_string [0x4F] w))
       (\<lambda>w'. Inr (BufferWriter_string [0x21] w'))"
  by pat_completeness auto

termination
  by (relation "measure (\<lambda>x. case x of
        Inl (Inl (Inl (fl, hs, v, w))) \<Rightarrow> 3 * size v + 2
      | Inl (Inl (Inr (fl, hs, slots, props, w))) \<Rightarrow>
          3 * (size_list (size_option size) slots + size_list (size_prod (\<lambda>k. 0) size) props) + 4
      | Inl (Inr (Inl (fl, hs, slots, w))) \<Rightarrow> 3 * size_list (size_option size) slots + 2
      | Inl (Inr (Inr (fl, hs, i, slots, w))) \<Rightarrow> 3 * size_list (size_option size) slots + 2
      | Inr (Inl (Inl (fl, hs, props, w))) \<Rightarrow>
          3 * size_list (size_prod (\<lambda>k. 0) size) props + 2
      | Inr (Inl (Inr (fl, hs, k, w))) \<Rightarrow> 3
      | Inr (Inr (Inl (fl, hs, v, w))) \<Rightarrow> 3 * size v + 1
      | Inr (Inr (Inr (fl, hs, props, w))) \<Rightarrow>
          3 * size_list (size_prod (\<lambda>k. 0) size) props + 3)")
    (auto split: option.splits)

definition toBuffer :: "float64 \<Rightarrow> helper list \<Rightarrow> jsval \<Rightarrow> error + Buffer" where
  "toBuffer fl hs thing =
     andThen (BufferWriter_uint8 0 BufferWriter_new) (\<lambda>buffWriter.
     andThen (toBufferInternal fl hs thing buffWriter) (\<lambda>w.
     Inr (BufferWriter_toBuffer w)))"

section \<open>Serializer: decoding\<close>

definition fromBufferInternalObjectDateD :: "BufferReader \<Rightarrow> error + jsval \<times> BufferReader" where
  "fromBufferInternalObjectDateD r =
     andThen (BufferReader_uint32 r) (\<lambda>(s, r1).
     andThen (BufferReader_uint16 r1) (\<lambda>(ms, r2).
     Inr (VDate (int (s * 1000 + ms)), r2)))"

definition fromBufferInternalObjectDateT :: "BufferReader \<Rightarrow> error + jsval \<times> BufferReader" where
  "fromBufferInternalObjectDateT r =
     andThen (BufferReader_uint32 r) (\<lambda>(s, r1). Inr (VDate (int (s * 1000)), r1))"

text \<open>The scan of the registered helpers for the name read from the buffer.\<close>

fun fromBufferInternalObjectHelper_scan ::
  "helper list \<Rightarrow> jsstring \<Rightarrow> BufferReader \<Rightarrow> error + jsval \<times> BufferReader" where
  "fromBufferInternalObjectHelper_scan [] nm r = Inl (HelperNotDefined nm)"
| "fromBufferInternalObjectHelper_scan (h # hs) nm r =
     (if name h = nm then fromBufferFn h r else fromBufferInternalObjectHelper_scan hs nm r)"

definition fromBufferInternalObjectHelper ::
  "helper list \<Rightarrow> BufferReader \<Rightarrow> error + jsval \<times> BufferReader" where
  "fromBufferInternalObjectHelper hs r =
     andThen (BufferReader_size r) (\<lambda>(len, r1).
     case BufferReader_string len r1 of
       (nm, r2) \<Rightarrow> fromBufferInternalObjectHelper_scan hs nm r2)"

text \<open>
  \<open>new RegExp(pattern, patternFlags)\<close> throws when the text is no pattern, and builds a
  pattern with the source that the engine gives it; the flags \<open>g\<close>, \<open>i\<close> and \<open>m\<close> do not
  change what is a pattern.
\<close>

definition fromBufferInternalObjectRegExp ::
  "float64 \<Rightarrow> BufferReader \<Rightarrow> error + jsval \<times> BufferReader" where
  "fromBufferInternalObjectRegExp fl r =
     andThen (BufferReader_size r) (\<lambda>(len, r1).
     case BufferReader_string len r1 of
       (pattern, r2) \<Rightarrow>
         andThen (BufferReader_uint8 r2) (\<lambda>(flags, r3).
         case regExpSource fl pattern of
           None \<Rightarrow> Inl SyntaxError
         | Some source \<Rightarrow>
             Inr (VRegExp source (flags AND 0x01 \<noteq> 0) (flags AND 0x02 \<noteq> 0)
                    (flags AND 0x04 \<noteq> 0), r3)))"

text \<open>
  \<open>result[key] = value\<close>. The key becomes a property name. The name of an integer below
  \<open>2^53\<close> in magnitude is its decimal numeral, with all its digits; beyond that \<open>String\<close>
  prints the shortest digits that read back as the same double, and the names of these
  numbers, of the numbers with a fractional part, and of objects, arrays, dates, patterns,
  buffers and functions are not modelled. A name is an array index when it is the decimal
  numeral of a number below \<open>2^32 - 1\<close>.
\<close>

definition toPropertyKey :: "jsval \<Rightarrow> jsstring option" where
  "toPropertyKey key =
     (case key of
        VStr s \<Rightarrow> Some s
      | VNum x \<Rightarrow>
          if of_int \<lfloor>x\<rfloor> = x \<and> \<bar>x\<bar> < 2 ^ 53
          then Some ((if x < 0 then [0x2D] else []) @ toString (nat \<lfloor>\<bar>x\<bar>\<rfloor>))
          else None
      | VSpecial s \<Rightarrow>
          Some (case s of
                  NegativeZero \<Rightarrow> [0x30]
                | NaN \<Rightarrow> [0x4E, 0x61, 0x4E]
                | PositiveInfinity \<Rightarrow> [0x49, 0x6E, 0x66, 0x69, 0x6E, 0x69, 0x74, 0x79]
                | NegativeInfinity \<Rightarrow> [0x2D, 0x49, 0x6E, 0x66, 0x69, 0x6E, 0x69, 0x74, 0x79])
      | VBool b \<Rightarrow> Some (if b then [0x74, 0x72, 0x75, 0x65] else [0x66, 0x61, 0x6C, 0x73, 0x65])
      | VNull \<Rightarrow> Some [0x6E, 0x75, 0x6C, 0x6C]
      | VUndefined \<Rightarrow> Some [0x75, 0x6E, 0x64, 0x65, 0x66, 0x69, 0x6E, 0x65, 0x64]
      | _ \<Rightarrow> None)"

definition arrayIndex :: "jsstring \<Rightarrow> nat option" where
  "arrayIndex k =
     (if keyPattern_test k \<and> toNumber k < 2 ^ 32 - 1 then Some (toNumber k) else None)"

text \<open>Assigning to \<open>"__proto__"\<close>, or to \<open>"length"\<close> of an array, is not modelled.\<close>

definition isAccessor :: "jsstring \<Rightarrow> bool" where
  "isAccessor k = (k = [0x5F, 0x5F, 0x70, 0x72, 0x6F, 0x74, 0x6F, 0x5F, 0x5F])"

definition isLength :: "jsstring \<Rightarrow> bool" where
  "isLength k = (k = [0x6C, 0x65, 0x6E, 0x67, 0x74, 0x68])"

fun assign :: "jsstring \<Rightarrow> jsval \<Rightarrow> (jsstring \<times> jsval) list \<Rightarrow> (jsstring \<times> jsval) list" where
  "assign k v [] = [(k, v)]"
| "assign k v (p # ps) = (if fst p = k then (k, v) # ps else p # assign k v ps)"

fun insertIndex ::
  "nat \<Rightarrow> jsstring \<Rightarrow> jsval \<Rightarrow> (jsstring \<times> jsval) list \<Rightarrow> (jsstring \<times> jsval) list" where
  "insertIndex i k v [] = [(k, v)]"
| "insertIndex i k v (p # ps) =
     (case arrayIndex (fst p) of
        Some j \<Rightarrow> if j < i then p # insertIndex i k v ps else (k, v) # p # ps
      | None \<Rightarrow> (k, v) # p # ps)"

definition setSlot :: "nat \<Rightarrow> jsval \<Rightarrow> jsval option list \<Rightarrow> jsval option list" where
  "setSlot i v slots =
     (if i < length slots then slots[i := Some v]
      else slots @ replicate (i - length slots) None @ [Some v])"

definition setObjectProperty ::
  "jsval \<Rightarrow> jsval \<Rightarrow> (jsstring \<times> jsval) list \<Rightarrow> error + (jsstring \<times> jsval) list" where
  "setObjectProperty key v props =
     (case toPropertyKey key of
        None \<Rightarrow> Inl NotModelled
      | Some k \<Rightarrow>
          if isAccessor k then Inl NotModelled
          else if k \<in> set (map fst props) then Inr (assign k v props)
          else (case arrayIndex k of
                  Some i \<Rightarrow> Inr (insertIndex i k v props)
                | None \<Rightarrow> Inr (props @ [(k, v)])))"

definition setArrayProperty ::
  "jsval \<Rightarrow> jsval \<Rightarrow> jsval option list \<times> (jsstring \<times> jsval) list
     \<Rightarrow> error + jsval option list \<times> (jsstring \<times> jsval) list" where
  "setArrayProperty key v result =
     (case toPropertyKey key of
        None \<Rightarrow> Inl NotModelled
      | Some k \<Rightarrow>
          if isAccessor k \<or> isLength k then Inl NotModelled
          else (case arrayIndex k of
                  Some i \<Rightarrow> Inr (setSlot i v (fst result), snd result)
                | None \<Rightarrow> Inr (fst result, assign k v (snd result))))"

text \<open>\<open>- v\<close> for what an unsigned read returns: the negative zero when \<open>v\<close> is 0.\<close>

definition negative :: "nat \<Rightarrow> jsval" where
  "negative v = (if v = 0 then VSpecial NegativeZero else VNum (- of_nat v))"

text \<open>
  The decoder. A registered \<open>fromBufferFn\<close> may move the cursor anywhere, so the loops
  need not end: the first argument bounds the number of nested calls and iterations, and
  \<open>None\<close> says that the bound was reached. The loops carry \<open>result\<close>.
\<close>

definition andThenF ::
  "(error + 'a) option \<Rightarrow> ('a \<Rightarrow> (error + 'b) option) \<Rightarrow> (error + 'b) option" where
  "andThenF m f = (case m of None \<Rightarrow> None | Some (Inl e) \<Rightarrow> Some (Inl e) | Some (Inr x) \<Rightarrow> f x)"

function (sequential) fromBufferInternal ::
    "nat \<Rightarrow> float64 \<Rightarrow> helper list \<Rightarrow> BufferReader \<Rightarrow> (error + jsval \<times> BufferReader) option"
and fromBufferInternalArrayDense ::
    "nat \<Rightarrow> float64 \<Rightarrow> helper list \<Rightarrow> BufferReader \<Rightarrow> jsval option list
       \<Rightarrow> (error + jsval \<times> BufferReader) option"
and fromBufferInternalArraySparse ::
    "nat \<Rightarrow> float64 \<Rightarrow> helper list \<Rightarrow> BufferReader
       \<Rightarrow> jsval option list \<times> (jsstring \<times> jsval) list
       \<Rightarrow> (error + jsval \<times> BufferReader) option"
and fromBufferInternalObjectGeneric ::
    "nat \<Rightarrow> float64 \<Rightarrow> helper list \<Rightarrow> BufferReader \<Rightarrow> (jsstring \<times> jsval) list
       \<Rightarrow> (error + jsval \<times> BufferReader) option"
where
  "fromBufferInternal 0 fl hs r = None"
| "fromBufferInternal (Suc n) fl hs r =
     (case BufferReader_uint8 r of
        Inl e \<Rightarrow> Some (Inl e)
      | Inr (code, r1) \<Rightarrow>
          if code = 0x2B then
            Some (andThen (BufferReader_uint8 r1) (\<lambda>(v, r2). Inr (VNum (of_nat v), r2)))
          else if code = 0x2D then
            Some (andThen (BufferReader_uint8 r1) (\<lambda>(v, r2). Inr (negative v, r2)))
          else if code = 0x41 then fromBufferInternalArraySparse n fl hs r1 ([], [])
          else if code = 0x42 then
            Some (andThen (BufferReader_size r1) (\<lambda>(len, r2).
                  case BufferReader_buffer len r2 of (b, r3) \<Rightarrow> Inr (VBuffer b, r3)))
          else if code = 0x44 then Some (fromBufferInternalObjectDateD r1)
          else if code = 0x49 then
            Some (andThen (BufferReader_uint32 r1) (\<lambda>(v, r2). Inr (negative v, r2)))
          else if code = 0x4F then fromBufferInternalObjectGeneric n fl hs r1 []
          else if code = 0x50 then
            Some (andThen (BufferReader_uint32 r1) (\<lambda>(v, r2). Inr (VNum (of_nat v), r2)))
          else if code = 0x52 then Some (fromBufferInternalObjectRegExp fl r1)
          else if code = 0x54 then Some (fromBufferInternalObjectDateT r1)
          else if code = 0x5A then Some (fromBufferInternalObjectHelper hs r1)
          else if code = 0x61 then fromBufferInternalArrayDense n fl hs r1 []
          else if code = 0x64 then
            Some (andThen (BufferReader_double fl r1) (\<lambda>(v, r2). Inr (number v, r2)))
          else if code = 0x66 then Some (Inr (VBool False, r1))
          else if code = 0x69 then
            Some (andThen (BufferReader_uint16 r1) (\<lambda>(v, r2). Inr (negative v, r2)))
          else if code = 0x6E then Some (Inr (VNull, r1))
          else if code = 0x70 then
            Some (andThen (BufferReader_uint16 r1) (\<lambda>(v, r2). Inr (VNum (of_nat v), r2)))
          else if code = 0x73 then
            Some (andThen (BufferReader_size r1) (\<lambda>(len, r2).
                  case BufferReader_string len r2 of (s, r3) \<Rightarrow> Inr (VStr s, r3)))
          else if code = 0x74 then Some (Inr (VBool True, r1))
          else Some (Inl (UnknownCode code)))"

| "fromBufferInternalArrayDense 0 fl hs r result = None"
| "fromBufferInternalArrayDense (Suc n) fl hs r result =
     (case BufferReader_peek r of
        Inl e \<Rightarrow> Some (Inl e)
      | Inr b \<Rightarrow>
          if b \<noteq> 0x21 then
            andThenF (fromBufferInternal n fl hs r) (\<lambda>(v, r1).
            fromBufferInternalArrayDense n fl hs r1 (result @ [Some v]))
          else Some (Inr (VArray result [], BufferReader_skip r)))"

| "fromBufferInternalArraySparse 0 fl hs r result = None"
| "fromBufferInternalArraySparse (Suc n) fl hs r result =
     (case BufferReader_peek r of
        Inl e \<Rightarrow> Some (Inl e)
      | Inr b \<Rightarrow>
          if b \<noteq> 0x21 then
            andThenF (fromBufferInternal n fl hs r) (\<lambda>(key, r1).
            andThenF (fromBufferInternal n fl hs r1) (\<lambda>(v, r2).
            case setArrayProperty key v result of
              Inl e \<Rightarrow> Some (Inl e)
            | Inr result' \<Rightarrow> fromBufferInternalArraySparse n fl hs r2 result'))
          else Some (Inr (VArray (fst result) (snd result), BufferReader_skip r)))"

| "fromBufferInternalObjectGeneric 0 fl hs r result = None"
| "fromBufferInternalObjectGeneric (Suc n) fl hs r result =
     (case BufferReader_peek r of
        Inl e \<Rightarrow> Some (Inl e)
      | Inr b \<Rightarrow>
          if b \<noteq> 0x21 then
            andThenF (fromBufferInternal n fl hs r) (\<lambda>(key, r1).
            andThenF (fromBufferInternal n fl hs r1) (\<lambda>(v, r2).
            case setObjectProperty key v result of
              Inl e \<Rightarrow> Some (Inl e)
            | Inr result' \<Rightarrow> fromBufferInternalObjectGeneric n fl hs r2 result'))
          else Some (Inr (VObject ''Object'' result, BufferReader_skip r)))"
  by pat_completeness auto

termination
  by (relation "measure (\<lambda>x. case x of
        Inl (Inl (n, fl, hs, r)) \<Rightarrow> n
      | Inl (Inr (n, fl, hs, r, result)) \<Rightarrow> n
      | Inr (Inl (n, fl, hs, r, result)) \<Rightarrow> n
      | Inr (Inr (n, fl, hs, r, result)) \<Rightarrow> n)") auto

text \<open>\<open>fromBuffer\<close> checks the version byte and returns what \<open>fromBufferInternal\<close> returns.\<close>

definition fromBuffer ::
  "nat \<Rightarrow> float64 \<Rightarrow> helper list \<Rightarrow> Buffer \<Rightarrow> nat \<Rightarrow> (error + jsval) option" where
  "fromBuffer n fl hs buff off =
     (if off < length buff \<and> buff ! off = 0x00
      then andThenF (fromBufferInternal n fl hs (BufferReader_new buff (off + 1)))
             (\<lambda>(v, r). Some (Inr v))
      else Some (Inl InvalidVersion))"

definition register ::
  "jsstring \<Rightarrow> (jsval \<Rightarrow> bool) \<Rightarrow> (jsval \<Rightarrow> BufferWriter \<Rightarrow> error + BufferWriter)
     \<Rightarrow> (BufferReader \<Rightarrow> error + jsval \<times> BufferReader) \<Rightarrow> helper list \<Rightarrow> helper list" where
  "register nm chk toFn fromFn hs =
     hs @ [\<lparr>name = nm, checkFn = chk, toBufferFn = toFn, fromBufferFn = fromFn\<rparr>]"

section \<open>The size codec\<close>

text \<open>Writing a size into a fresh writer and reading it back from the start of the result.\<close>

definition size_codec :: "int \<Rightarrow> error + nat" where
  "size_codec n =
     (case BufferWriter_size n BufferWriter_new of
        Inl e \<Rightarrow> Inl e
      | Inr w \<Rightarrow>
          (case BufferReader_size (BufferReader_new (BufferWriter_toBuffer w) 0) of
             Inl e \<Rightarrow> Inl e
           | Inr (v, r) \<Rightarrow> Inr v))"

definition encodeSize :: "int \<Rightarrow> error + Buffer" where
  "encodeSize n = map_sum id BufferWriter_toBuffer (BufferWriter_size n BufferWriter_new)"

text \<open>
  The values that reach the loop over the helpers: \<open>typeof thing === "object"\<close>, not
  \<open>null\<close> and not an array.
\<close>

fun isArray :: "jsval \<Rightarrow> bool" where
  "isArray (VArray slots props) = True"
| "isArray v = False"

definition reachesHelpers :: "jsval \<Rightarrow> bool" where
  "reachesHelpers thing = (typeof thing = ''object'' \<and> thing \<noteq> VNull \<and> \<not> isArray thing)"

text \<open>
  \<open>Object.keys\<close> of an array without other properties: the slots that are own properties,
  under the decimal numeral of their index. A hole has no key.
\<close>

fun ownSlots :: "nat \<Rightarrow> jsval option list \<Rightarrow> (jsstring \<times> jsval) list" where
  "ownSlots i [] = []"
| "ownSlots i (None # rest) = ownSlots (Suc i) rest"
| "ownSlots i (Some v # rest) = (toString i, v) # ownSlots (Suc i) rest"

text \<open>
  The helper that the tests of the repository register: instances of \<open>Klass\<close> are written
  as the size \<open>thing.getVal()\<close> and rebuilt from it. Beside it, a helper whose \<open>checkFn\<close>
  accepts every value.
\<close>

definition Klass_helper :: helper where
  "Klass_helper =
     \<lparr>name = [0x4B, 0x6C, 0x61, 0x73, 0x73],
      checkFn = (\<lambda>thing. case thing of VObject c props \<Rightarrow> c = ''Klass'' | _ \<Rightarrow> False),
      toBufferFn = (\<lambda>thing bufferWriter.
         case thing of
           VObject c props \<Rightarrow>
             (case map_of props [0x76, 0x61, 0x6C] of
                Some (VNum val) \<Rightarrow> BufferWriter_size \<lfloor>val\<rfloor> bufferWriter
              | _ \<Rightarrow> Inl (HelperError ''val''))
         | _ \<Rightarrow> Inl (HelperError ''getVal'')),
      fromBufferFn = (\<lambda>bufferReader.
         andThen (BufferReader_size bufferReader) (\<lambda>(val, r).
         Inr (VObject ''Klass'' [([0x76, 0x61, 0x6C], VNum (of_nat val))], r)))\<rparr>"

definition any_helper :: helper where
  "any_helper =
     \<lparr>name = [0x78],
      checkFn = (\<lambda>thing. True),
      toBufferFn = (\<lambda>thing bufferWriter. Inr bufferWriter),
      fromBufferFn = (\<lambda>bufferReader. Inr (VNull, bufferReader))\<rparr>"

text \<open>
  The bytes that \<open>BufferWriter.size\<close> writes for a size, and the segments that
  \<open>toBufferInternal\<close> appends for a value (nothing where they throw).
\<close>

definition sizeBytes :: "nat \<Rightarrow> Buffer" where
  "sizeBytes n = (case BufferWriter_size (int n) [] of Inl e \<Rightarrow> [] | Inr w \<Rightarrow> concat w)"

definition segments :: "float64 \<Rightarrow> helper list \<Rightarrow> jsval \<Rightarrow> Buffer list" where
  "segments fl hs v = (case toBufferInternal fl hs v [] of Inl e \<Rightarrow> [] | Inr w \<Rightarrow> w)"

definition bytes :: "float64 \<Rightarrow> helper list \<Rightarrow> jsval \<Rightarrow> Buffer" where
  "bytes fl hs v = concat (segments fl hs v)"

text \<open>Strings whose code units all fit a byte.\<close>

definition latin1 :: "jsstring \<Rightarrow> bool" where
  "latin1 s = list_all (\<lambda>c. c \<le> 0xFF) s"

text \<open>What the reader has not consumed yet.\<close>

definition remaining :: "BufferReader \<Rightarrow> Buffer" where
  "remaining r = drop (offset r) (readBuffer r)"

text \<open>
  One point of the IEEE-754 table, enough to evaluate the examples: the double \<open>1.25\<close> is
  \<open>3FF4000000000000\<close>; and one pattern, \<open>a\<close>.
\<close>

definition sampleFloat64 :: float64 where
  "sampleFloat64 =
     \<lparr>doubleBits = (\<lambda>x. if x = Finite (5 / 4) then 0x3FF4000000000000 else 0),
      bitsDouble = (\<lambda>b. if b = 0x3FF4000000000000 then Finite (5 / 4) else Finite 0),
      regExpSource = (\<lambda>p. if p = [0x61] then Some [0x61] else None)\<rparr>"


section \<open>Values that survive the round trip\<close>

text \<open>
  The value that \<open>toBufferInternalKey\<close> writes for a key: a number for a canonical decimal
  numeral, the string otherwise.
\<close>

definition keyValue :: "jsstring \<Rightarrow> jsval" where
  "keyValue k = (if keyPattern_test k then VNum (of_nat (toNumber k)) else VStr k)"

text \<open>No registered helper accepts the value.\<close>

definition unclaimed :: "helper list \<Rightarrow> jsval \<Rightarrow> bool" where
  "unclaimed hs v = (find (\<lambda>h. checkFn h v) hs = None)"

text \<open>
  A key that can be assigned back: not \<open>"__proto__"\<close>, and when it is a numeral, the
  numeral of a number below \<open>2^53\<close>, which \<open>String\<close> prints with all its digits.
\<close>

definition keyOk :: "jsstring \<Rightarrow> bool" where
  "keyOk k = (\<not> isAccessor k \<and> (keyPattern_test k \<longrightarrow> toNumber k < 2 ^ 53))"

text \<open>
  The order of \<open>Object.keys\<close>: the array indices first, ascending, then the other keys in
  the order of their creation, and no key twice. \<open>comesNext seen k\<close> says that \<open>k\<close> may
  follow the keys \<open>seen\<close>.
\<close>

definition comesNext :: "jsstring list \<Rightarrow> jsstring \<Rightarrow> bool" where
  "comesNext seen k =
     (k \<notin> set seen
      \<and> (case arrayIndex k of
           None \<Rightarrow> True
         | Some i \<Rightarrow> list_all (\<lambda>k'. case arrayIndex k' of Some j \<Rightarrow> j < i | None \<Rightarrow> False) seen))"

fun keysInOrder :: "jsstring list \<Rightarrow> jsstring list \<Rightarrow> bool" where
  "keysInOrder seen [] = True"
| "keysInOrder seen (k # ks) = (comesNext seen k \<and> keysInOrder (seen @ [k]) ks)"

text \<open>
  A helper that inverts itself on a value: its \<open>toBufferFn\<close> appends a payload, and the
  helper found under its name rebuilds the value from that payload and leaves the cursor
  behind it. The name is read back as it was written.
\<close>

definition helperCodec :: "helper list \<Rightarrow> helper \<Rightarrow> jsval \<Rightarrow> bool" where
  "helperCodec hs h v =
     (latin1 (name h) \<and> length (name h) < 0x1FFFFFFF
      \<and> (\<exists>payload.
            (\<forall>w. toBufferFn h v w = Inr (w @ payload))
            \<and> (\<forall>r rest. remaining r = concat payload @ rest \<longrightarrow>
                  fromBufferInternalObjectHelper_scan hs (name h) r
                    = Inr (v, r\<lparr>offset := offset r + length (concat payload)\<rparr>))))"

text \<open>The byte of the flags of a pattern.\<close>

definition flagsByte :: "bool \<Rightarrow> bool \<Rightarrow> bool \<Rightarrow> byte" where
  "flagsByte g i m = word_of_int ((if g then 0x01 else 0) + (if i then 0x02 else 0)
          + (if m then 0x04 else 0))"

text \<open>
  The values that the format keeps: \<open>null\<close>, booleans, numbers that are integers of at most
  32 bits or that the table of doubles gives back (the negative zero is not one of them),
  strings of units that fit a byte, patterns with such a source, which the constructor
  gives back, buffers, dates from the epoch to below
  \<open>2^32\<close> seconds after it, lists of such values, arrays with holes or other properties that
  end in an own slot, plain objects of such values, and the values that a registered helper
  accepts and inverts. The value that is written for a key of an array or of an object must
  be kept too.
\<close>

inductive faithful :: "float64 \<Rightarrow> helper list \<Rightarrow> jsval \<Rightarrow> bool"
  for fl :: float64 and hs :: "helper list" where
  faithful_null: "faithful fl hs VNull"
| faithful_boolean: "faithful fl hs (VBool b)"
| faithful_integer: "\<bar>n\<bar> \<le> 0xFFFFFFFF \<Longrightarrow> faithful fl hs (VNum (of_int n))"
| faithful_double:
    "of_int \<lfloor>x\<rfloor> \<noteq> x \<or> 0xFFFFFFFF < \<bar>x\<bar>
     \<Longrightarrow> bitsDouble fl (doubleBits fl (Finite x)) = Finite x
     \<Longrightarrow> faithful fl hs (VNum x)"
| faithful_special:
    "s \<noteq> NegativeZero \<Longrightarrow> bitsDouble fl (doubleBits fl (Special s)) = Special s
     \<Longrightarrow> faithful fl hs (VSpecial s)"
| faithful_string: "latin1 s \<Longrightarrow> length s < 0x1FFFFFFF \<Longrightarrow> faithful fl hs (VStr s)"
| faithful_buffer:
    "unclaimed hs (VBuffer b) \<Longrightarrow> length b < 0x1FFFFFFF \<Longrightarrow> faithful fl hs (VBuffer b)"
| faithful_date:
    "unclaimed hs (VDate t) \<Longrightarrow> 0 \<le> t \<Longrightarrow> t < 2 ^ 32 * 1000 \<Longrightarrow> faithful fl hs (VDate t)"
| faithful_regexp:
    "unclaimed hs (VRegExp s g i m) \<Longrightarrow> latin1 s \<Longrightarrow> length s < 0x1FFFFFFF
     \<Longrightarrow> regExpSource fl s = Some s
     \<Longrightarrow> faithful fl hs (VRegExp s g i m)"
| faithful_dense:
    "(\<And>v. v \<in> set vs \<Longrightarrow> faithful fl hs v) \<Longrightarrow> faithful fl hs (VArray (map Some vs) [])"
| faithful_sparse:
    "None \<in> set slots \<or> props \<noteq> [] \<Longrightarrow> slots = [] \<or> last slots \<noteq> None
     \<Longrightarrow> length slots < 2 ^ 32
     \<Longrightarrow> (\<And>v. Some v \<in> set slots \<Longrightarrow> faithful fl hs v)
     \<Longrightarrow> distinct (map fst props)
     \<Longrightarrow> (\<And>k v. (k, v) \<in> set props \<Longrightarrow>
            arrayIndex k = None \<and> \<not> isLength k \<and> keyOk k
            \<and> faithful fl hs (keyValue k) \<and> faithful fl hs v)
     \<Longrightarrow> faithful fl hs (VArray slots props)"
| faithful_object:
    "unclaimed hs (VObject ''Object'' props) \<Longrightarrow> keysInOrder [] (map fst props)
     \<Longrightarrow> (\<And>k v. (k, v) \<in> set props \<Longrightarrow>
            keyOk k \<and> faithful fl hs (keyValue k) \<and> faithful fl hs v)
     \<Longrightarrow> faithful fl hs (VObject ''Object'' props)"
| faithful_extension:
    "reachesHelpers v \<Longrightarrow> find (\<lambda>h. checkFn h v) hs = Some h \<Longrightarrow> helperCodec hs h v
     \<Longrightarrow> faithful fl hs v"

text \<open>
  A value round-trips: \<open>toBufferInternal\<close> appends its segments to any writer, they are not
  empty and do not start with the end marker, and with enough fuel \<open>fromBufferInternal\<close>
  reads the value back from any reader that stands before these bytes, and leaves the
  cursor behind them.
\<close>

definition roundTrips :: "float64 \<Rightarrow> helper list \<Rightarrow> jsval \<Rightarrow> bool" where
  "roundTrips fl hs v =
     ((\<forall>w. toBufferInternal fl hs v w = Inr (w @ segments fl hs v))
      \<and> bytes fl hs v \<noteq> [] \<and> hd (bytes fl hs v) \<noteq> 0x21
      \<and> (\<exists>N. \<forall>n\<ge>N. \<forall>r rest. remaining r = bytes fl hs v @ rest \<longrightarrow>
            fromBufferInternal n fl hs r
              = Some (Inr (v, r\<lparr>offset := offset r + length (bytes fl hs v)\<rparr>))))"

text \<open>The segments of a list of pairs, and the assignments that rebuild a container.\<close>

definition pairSegments :: "float64 \<Rightarrow> helper list \<Rightarrow> (jsstring \<times> jsval) list \<Rightarrow> Buffer list" where
  "pairSegments fl hs ps =
     concat (map (\<lambda>(k, v). segments fl hs (keyValue k) @ segments fl hs v) ps)"

fun setArrayProperties ::
  "(jsstring \<times> jsval) list \<Rightarrow> jsval option list \<times> (jsstring \<times> jsval) list
     \<Rightarrow> error + jsval option list \<times> (jsstring \<times> jsval) list" where
  "setArrayProperties [] result = Inr result"
| "setArrayProperties ((k, v) # ps) result =
     andThen (setArrayProperty (keyValue k) v result) (setArrayProperties ps)"

fun setObjectProperties ::
  "(jsstring \<times> jsval) list \<Rightarrow> (jsstring \<times> jsval) list \<Rightarrow> error + (jsstring \<times> jsval) list" where
  "setObjectProperties [] result = Inr result"
| "setObjectProperties ((k, v) # ps) result =
     andThen (setObjectProperty (keyValue k) v result) (setObjectProperties ps)"

text \<open>
  A reader that stands over the same buffer, not before the other; and helpers whose
  \<open>fromBufferFn\<close> leave the reader so.
\<close>

definition advances :: "BufferReader \<Rightarrow> BufferReader \<Rightarrow> bool" where
  "advances r r' = (readBuffer r' = readBuffer r \<and> offset r \<le> offset r')"

definition helpersAdvance :: "helper list \<Rightarrow> bool" where
  "helpersAdvance hs =
     (\<forall>h \<in> set hs. \<forall>r v r'. fromBufferFn h r = Inr (v, r') \<longrightarrow> advances r r')"
section \<open>Properties\<close>

lemmas writer_defs = BufferWriter_new_def BufferWriter_buffer_def BufferWriter_uint8_def
  BufferWriter_uint16_def BufferWriter_uint32_def BufferWriter_size_def
  BufferWriter_string_def BufferWriter_toBuffer_def

lemmas reader_defs = BufferReader_new_def slice_def BufferReader_buffer_def
  BufferReader_peek_def BufferReader_skip_def BufferReader_string_def BufferReader_uint8_def
  BufferReader_uint16_def BufferReader_uint32_def BufferReader_size_def

lemma andThen_Inr [simp]: "andThen (Inr x) f = f x"
  by (simp add: andThen_def)

lemma andThen_Inl [simp]: "andThen (Inl e) f = Inl e"
  by (simp add: andThen_def)

subsection \<open>Fixed-width fields\<close>

lemma unat_uint8: "0 \<le> v \<Longrightarrow> v \<le> 0xFF \<Longrightarrow> unat (word_of_int v :: 8 word) = nat v"
  by (simp add: unsigned_of_int take_bit_eq_mod)

lemma unat_uint16_nat: "n < 65536 \<Longrightarrow>
  unat (word_of_nat (n div 256) :: 8 word) * 256 + unat (word_of_nat n :: 8 word) = n"
  by (simp add: unat_of_nat)

lemma unat_uint32_nat:
  assumes "n < 4294967296"
  shows "unat (word_of_nat (n div 16777216) :: 8 word) * 16777216
  + unat (word_of_nat (n div 65536) :: 8 word) * 65536
  + unat (word_of_nat (n div 256) :: 8 word) * 256 + unat (word_of_nat n :: 8 word) = n"
proof -
  define q1 where "q1 = n div 256"
  define q2 where "q2 = q1 div 256"
  define q3 where "q3 = q2 div 256"
  have e2: "n div 65536 = q2" unfolding q2_def q1_def by (simp add: div_mult2_eq[symmetric])
  have e3: "n div 16777216 = q3" unfolding q3_def q2_def q1_def by (simp add: div_mult2_eq[symmetric])
  have s3: "q3 < 256" using assms unfolding e3[symmetric] by simp
  have 1: "n = q1 * 256 + n mod 256" unfolding q1_def by simp
  have 2: "q1 = q2 * 256 + q1 mod 256" unfolding q2_def by simp
  have 3: "q2 = q3 * 256 + q2 mod 256" unfolding q3_def by simp
  have "q3 * 16777216 + (q2 mod 256) * 65536 + (q1 mod 256) * 256 + n mod 256 = n"
    using 1 2 3 by linarith
  then show ?thesis
    using s3 by (simp add: unat_of_nat e2 e3 q1_def[symmetric])
qed

lemma unat_uint16: "0 \<le> v \<Longrightarrow> v \<le> 0xFFFF \<Longrightarrow>
  unat (word_of_int (v div 0x100) :: 8 word) * 0x100 + unat (word_of_int v :: 8 word) = nat v"
proof -
  assume a: "0 \<le> v" "v \<le> 0xFFFF"
  then obtain n where n: "v = int n" using nonneg_int_cases by blast
  have "n < 65536" using a n by simp
  have h: "int n div 256 = int (n div 256)" by simp
  from unat_uint16_nat[OF \<open>n < 65536\<close>] show ?thesis unfolding n h by (simp only: of_int_of_nat_eq nat_int)
qed

lemma unat_uint32: "0 \<le> v \<Longrightarrow> v \<le> 0xFFFFFFFF \<Longrightarrow>
  unat (word_of_int (v div 0x1000000) :: 8 word) * 0x1000000
  + unat (word_of_int (v div 0x10000) :: 8 word) * 0x10000
  + unat (word_of_int (v div 0x100) :: 8 word) * 0x100 + unat (word_of_int v :: 8 word) = nat v"
proof -
  assume a: "0 \<le> v" "v \<le> 0xFFFFFFFF"
  then obtain n where n: "v = int n" using nonneg_int_cases by blast
  have "n < 4294967296" using a n by simp
  have h: "int n div 256 = int (n div 256)" "int n div 65536 = int (n div 65536)"
    "int n div 16777216 = int (n div 16777216)" by simp_all
  from unat_uint32_nat[OF \<open>n < 4294967296\<close>] show ?thesis unfolding n h
    by (simp only: of_int_of_nat_eq nat_int)
qed


lemma remaining_bounds:
  assumes "remaining r = bs @ rest" "bs \<noteq> []"
  shows "offset r + length bs \<le> length (readBuffer r)"
proof -
  have "length (remaining r) = length (readBuffer r) - offset r"
    by (simp add: remaining_def)
  moreover have "length bs \<le> length (remaining r)" "0 < length bs" using assms by simp_all
  ultimately show ?thesis by linarith
qed

lemma remaining_nth:
  assumes "remaining r = bs @ rest" "i < length bs"
  shows "readBuffer r ! (offset r + i) = bs ! i"
proof -
  have "bs \<noteq> []" using assms(2) by auto
  from remaining_bounds[OF assms(1) this]
  have le: "offset r \<le> length (readBuffer r)" by simp
  have "readBuffer r ! (offset r + i) = remaining r ! i"
    using le by (simp add: remaining_def)
  then show ?thesis using assms by (simp add: nth_append)
qed

lemma remaining_advance:
  assumes "remaining r = bs @ rest"
  shows "remaining (r\<lparr>offset := offset r + length bs\<rparr>) = rest"
proof -
  have "drop (length bs) (remaining r) = rest" using assms by simp
  then show ?thesis by (simp add: remaining_def add.commute)
qed

lemma remaining_take:
  assumes "remaining r = bs @ rest"
  shows "slice (readBuffer r) (offset r) (offset r + length bs) = bs"
  using assms by (simp add: slice_def remaining_def)

lemma peek_remaining:
  "remaining r = b # rest \<Longrightarrow> BufferReader_peek r = Inr b"
  using remaining_bounds[of r "[b]" rest] remaining_nth[of r "[b]" rest 0]
  by (simp add: BufferReader_peek_def)

lemma peek_remaining_Nil:
  "offset r \<le> length (readBuffer r) \<Longrightarrow> remaining r = [] \<Longrightarrow> BufferReader_peek r = Inl EndOfStream"
  by (simp add: BufferReader_peek_def remaining_def)

lemma uint8_remaining:
  "remaining r = b # rest \<Longrightarrow>
   BufferReader_uint8 r = Inr (unat b, r\<lparr>offset := offset r + 1\<rparr>)"
  using remaining_bounds[of r "[b]" rest] remaining_nth[of r "[b]" rest 0]
  by (simp add: BufferReader_uint8_def)

lemma uint16_remaining:
  "remaining r = a # b # rest \<Longrightarrow>
   BufferReader_uint16 r = Inr (unat a * 0x100 + unat b, r\<lparr>offset := offset r + 2\<rparr>)"
  using remaining_bounds[of r "[a, b]" rest] remaining_nth[of r "[a, b]" rest 0]
    remaining_nth[of r "[a, b]" rest 1]
  by (simp add: BufferReader_uint16_def)

lemma uint32_remaining:
  "remaining r = a # b # c # d # rest \<Longrightarrow>
   BufferReader_uint32 r =
     Inr (unat a * 0x1000000 + unat b * 0x10000 + unat c * 0x100 + unat d,
          r\<lparr>offset := offset r + 4\<rparr>)"
  using remaining_bounds[of r "[a, b, c, d]" rest] remaining_nth[of r "[a, b, c, d]" rest 0]
    remaining_nth[of r "[a, b, c, d]" rest 1] remaining_nth[of r "[a, b, c, d]" rest 2]
    remaining_nth[of r "[a, b, c, d]" rest 3]
  by (simp add: BufferReader_uint32_def)

lemma string_remaining:
  "remaining r = bs @ rest \<Longrightarrow>
   BufferReader_string (length bs) r = (map ucast bs, r\<lparr>offset := offset r + length bs\<rparr>)"
  by (simp add: BufferReader_string_def remaining_take)

lemma buffer_remaining:
  "remaining r = bs @ rest \<Longrightarrow>
   BufferReader_buffer (length bs) r = (bs, r\<lparr>offset := offset r + length bs\<rparr>)"
  by (simp add: BufferReader_buffer_def remaining_take)

subsection \<open>The size codec\<close>

lemma byte_bit: "i < 8 \<Longrightarrow> ((word_of_int k :: 8 word) AND 2 ^ i = 0) = even (k div 2 ^ i)"
proof -
  assume "i < 8"
  have "((word_of_int k :: 8 word) AND 2 ^ i = 0) = (\<not> bit (word_of_int k :: 8 word) i)"
    by (simp only: and_exp_eq_0_iff_not_bit)
  also have "\<dots> = (\<not> bit k i)" using \<open>i < 8\<close> by (simp only: bit_word_of_int_iff) simp
  also have "\<dots> = even (k div 2 ^ i)" by (simp only: bit_iff_odd) simp
  finally show ?thesis .
qed

lemma byte_and_0x80: "((word_of_int k :: 8 word) AND 0x80 = 0) = even (k div 0x80)"
  using byte_bit[of 7 k] by simp

lemma byte_and_0x40: "((word_of_int k :: 8 word) AND 0x40 = 0) = even (k div 0x40)"
  using byte_bit[of 6 k] by simp

lemma byte_and_0x20: "((word_of_int k :: 8 word) AND 0x20 = 0) = even (k div 0x20)"
  using byte_bit[of 5 k] by simp

lemma or_0x8000: "0 \<le> (s::int) \<Longrightarrow> s < 0x8000 \<Longrightarrow> s OR 0x8000 = s + 0x8000"
proof -
  assume a: "0 \<le> s" "s < 0x8000"
  have "s AND 2 ^ 15 = 0"
    unfolding and_exp_eq_0_iff_not_bit bit_iff_odd using a by simp
  then have "s + 2 ^ 15 = s OR 2 ^ 15" by (rule disjunctive_add_eq_or)
  then show ?thesis by simp
qed

lemma and_0x3FFF: "(x::nat) AND 0x3FFF = x mod 0x4000"
proof -
  have "(0x3FFF::nat) = mask 14" by (simp add: mask_eq_exp_minus_1)
  then have "x AND 0x3FFF = take_bit 14 x" by (simp only: take_bit_eq_mask)
  then show ?thesis by (simp add: take_bit_eq_mod)
qed

lemma and_0x1FFFFFFF: "(x::nat) AND 0x1FFFFFFF = x mod 0x20000000"
proof -
  have "(0x1FFFFFFF::nat) = mask 29" by (simp add: mask_eq_exp_minus_1)
  then have "x AND 0x1FFFFFFF = take_bit 29 x" by (simp only: take_bit_eq_mask)
  then show ?thesis by (simp add: take_bit_eq_mod)
qed

lemma size_roundtrip:
  assumes "0 \<le> n" "n < 0x1FFFFFFF"
  obtains bs where "bs \<noteq> []" "length bs \<le> 4"
    "\<And>w. BufferWriter_size n w = Inr (w @ [bs])"
    "\<And>r rest. remaining r = bs @ rest \<Longrightarrow>
       BufferReader_size r = Inr (nat n, r\<lparr>offset := offset r + length bs\<rparr>)"
proof -
  consider (one) "n < 0x7F" | (two) "0x7F \<le> n" "n < 0x3FFF" | (four) "0x3FFF \<le> n"
    by linarith
  then show thesis
  proof cases
    case one
    have w: "BufferWriter_size n w = Inr (w @ [[word_of_int n]])" for w
      using assms one by (simp add: BufferWriter_size_def BufferWriter_uint8_def)
    have d: "n div 128 = 0" using assms one by simp
    have r: "BufferReader_size r = Inr (nat n, r\<lparr>offset := offset r + length [word_of_int n :: byte]\<rparr>)"
      if "remaining r = [word_of_int n] @ rest" for r rest
      using that assms one
      by (simp add: BufferReader_size_def peek_remaining uint8_remaining byte_and_0x80 d unat_uint8)
    show thesis by (rule that[of "[word_of_int n]"]) (simp_all add: w r)
  next
    case two
    define v where "v = n + 0x8000"
    have v: "0 \<le> v" "v \<le> 0xFFFF" "n OR 0x8000 = v"
      using assms two by (simp_all add: v_def or_0x8000)
    have w: "BufferWriter_size n w = Inr (w @ [[word_of_int (v div 0x100), word_of_int v]])" for w
      using assms two v by (simp add: BufferWriter_size_def BufferWriter_uint16_def)
    have d: "v div 256 div 128 = 1" "v div 256 div 64 = 2"
      using assms two by (simp_all add: v_def zdiv_zmult2_eq[symmetric])
    have "nat v = nat n + 0x4000 * 2" using assms by (simp add: v_def)
    then have "nat v mod 0x4000 = nat n mod 0x4000" by (simp only: mod_mult_self2)
    then have m: "nat v mod 0x4000 = nat n" using assms two by simp
    have r: "BufferReader_size r = Inr (nat n, r\<lparr>offset := offset r + length [word_of_int (v div 0x100) :: byte, word_of_int v]\<rparr>)"
      if "remaining r = [word_of_int (v div 0x100), word_of_int v] @ rest" for r rest
      using that v
      by (simp add: BufferReader_size_def peek_remaining uint16_remaining byte_and_0x80
          byte_and_0x40 d unat_uint16 and_0x3FFF m)
    show thesis
      by (rule that[of "[word_of_int (v div 0x100), word_of_int v]"]) (simp_all add: w r)
  next
    case four
    define v where "v = n + 0xC0000000"
    have v: "0 \<le> v" "v \<le> 0xFFFFFFFF" using assms four by (simp_all add: v_def)
    let ?bs = "[word_of_int (v div 0x1000000), word_of_int (v div 0x10000),
               word_of_int (v div 0x100), word_of_int v] :: byte list"
    have w: "BufferWriter_size n w = Inr (w @ [?bs])" for w
      using assms four v by (simp add: BufferWriter_size_def BufferWriter_uint32_def v_def)
    have d: "v div 0x1000000 div 128 = 1" "v div 0x1000000 div 64 = 3" "v div 0x1000000 div 32 = 6"
      using assms four by (simp_all add: v_def zdiv_zmult2_eq[symmetric])
    have "nat v = nat n + 0x20000000 * 6" using assms by (simp add: v_def)
    then have "nat v mod 0x20000000 = nat n mod 0x20000000" by (simp only: mod_mult_self2)
    then have m: "nat v mod 0x20000000 = nat n" using assms four by simp
    have r: "BufferReader_size r = Inr (nat n, r\<lparr>offset := offset r + length ?bs\<rparr>)"
      if "remaining r = ?bs @ rest" for r rest
      using that v
      by (simp add: BufferReader_size_def peek_remaining uint32_remaining byte_and_0x80
          byte_and_0x40 byte_and_0x20 d unat_uint32 and_0x1FFFFFFF m)
    show thesis
      by (rule that[of ?bs]) (simp_all add: w r)
  qed
qed

subsection \<open>Decoding one scalar\<close>

lemma remaining_advance1:
  "remaining r = b # rest \<Longrightarrow> remaining (r\<lparr>offset := offset r + 1\<rparr>) = rest"
  using remaining_advance[of r "[b]" rest] by simp

lemma remaining_advance_k:
  "remaining r = bs @ rest \<Longrightarrow> k = length bs \<Longrightarrow> remaining (r\<lparr>offset := offset r + k\<rparr>) = rest"
  using remaining_advance[of r bs rest] by simp

lemma decode_null:
  "remaining r = 0x6E # rest \<Longrightarrow>
   fromBufferInternal (Suc n) fl hs r = Some (Inr (VNull, r\<lparr>offset := offset r + 1\<rparr>))"
  by (simp add: uint8_remaining)

lemma decode_true:
  "remaining r = 0x74 # rest \<Longrightarrow>
   fromBufferInternal (Suc n) fl hs r = Some (Inr (VBool True, r\<lparr>offset := offset r + 1\<rparr>))"
  by (simp add: uint8_remaining)

lemma decode_false:
  "remaining r = 0x66 # rest \<Longrightarrow>
   fromBufferInternal (Suc n) fl hs r = Some (Inr (VBool False, r\<lparr>offset := offset r + 1\<rparr>))"
  by (simp add: uint8_remaining)

lemma decode_pos8:
  assumes "remaining r = 0x2B # b # rest"
  shows "fromBufferInternal (Suc n) fl hs r
    = Some (Inr (VNum (of_nat (unat b)), r\<lparr>offset := offset r + 2\<rparr>))"
proof -
  have 1: "remaining (r\<lparr>offset := offset r + 1\<rparr>) = b # rest"
    using assms by (rule remaining_advance1)
  show ?thesis
    using uint8_remaining[OF assms] uint8_remaining[OF 1] by simp
qed

lemma decode_neg8:
  assumes "remaining r = 0x2D # b # rest"
  shows "fromBufferInternal (Suc n) fl hs r
    = Some (Inr (negative (unat b), r\<lparr>offset := offset r + 2\<rparr>))"
proof -
  have 1: "remaining (r\<lparr>offset := offset r + 1\<rparr>) = b # rest"
    using assms by (rule remaining_advance1)
  show ?thesis
    using uint8_remaining[OF assms] uint8_remaining[OF 1] by simp
qed

lemma decode_pos16:
  assumes "remaining r = 0x70 # a # b # rest"
  shows "fromBufferInternal (Suc n) fl hs r
    = Some (Inr (VNum (of_nat (unat a * 0x100 + unat b)), r\<lparr>offset := offset r + 3\<rparr>))"
proof -
  have 1: "remaining (r\<lparr>offset := offset r + 1\<rparr>) = a # b # rest"
    using assms by (rule remaining_advance1)
  show ?thesis
    using uint8_remaining[OF assms] uint16_remaining[OF 1] by simp
qed

lemma decode_neg16:
  assumes "remaining r = 0x69 # a # b # rest"
  shows "fromBufferInternal (Suc n) fl hs r
    = Some (Inr (negative (unat a * 0x100 + unat b), r\<lparr>offset := offset r + 3\<rparr>))"
proof -
  have 1: "remaining (r\<lparr>offset := offset r + 1\<rparr>) = a # b # rest"
    using assms by (rule remaining_advance1)
  show ?thesis
    using uint8_remaining[OF assms] uint16_remaining[OF 1] by simp
qed

lemma decode_pos32:
  assumes "remaining r = 0x50 # a # b # c # d # rest"
  shows "fromBufferInternal (Suc n) fl hs r
    = Some (Inr (VNum (of_nat (unat a * 0x1000000 + unat b * 0x10000 + unat c * 0x100 + unat d)),
                 r\<lparr>offset := offset r + 5\<rparr>))"
proof -
  have 1: "remaining (r\<lparr>offset := offset r + 1\<rparr>) = a # b # c # d # rest"
    using assms by (rule remaining_advance1)
  show ?thesis
    using uint8_remaining[OF assms] uint32_remaining[OF 1] by simp
qed

lemma decode_neg32:
  assumes "remaining r = 0x49 # a # b # c # d # rest"
  shows "fromBufferInternal (Suc n) fl hs r
    = Some (Inr (negative (unat a * 0x1000000 + unat b * 0x10000 + unat c * 0x100 + unat d),
                 r\<lparr>offset := offset r + 5\<rparr>))"
proof -
  have 1: "remaining (r\<lparr>offset := offset r + 1\<rparr>) = a # b # c # d # rest"
    using assms by (rule remaining_advance1)
  show ?thesis
    using uint8_remaining[OF assms] uint32_remaining[OF 1] by simp
qed

lemma word_rcat_bytes:
  "word_rcat (map (\<lambda>i. ucast (drop_bit (8 * i) w) :: byte) [7, 6, 5, 4, 3, 2, 1, 0]) = (w :: 64 word)"
proof (rule bit_word_eqI)
  fix n assume n: "n < LENGTH(64)"
  have r: "rev (map (\<lambda>i. ucast (drop_bit (8 * i) w) :: byte) [7, 6, 5, 4, 3, 2, 1, 0])
      = map (\<lambda>i. ucast (drop_bit (8 * i) w)) [0..<8]"
    by (simp add: upt_rec)
  have d: "n div 8 < 8" using n by simp
  have "bit (word_rcat (map (\<lambda>i. ucast (drop_bit (8 * i) w) :: byte) [7, 6, 5, 4, 3, 2, 1, 0]) :: 64 word) n
      = bit (ucast (drop_bit (8 * (n div 8)) w) :: byte) (n mod 8)"
    using n d unfolding word_rcat_def o_def r
    by (simp only: bit_word_of_int_iff bit_horner_sum_uint_exp_iff length_map length_upt nth_map nth_upt)
       simp
  also have "\<dots> = bit w n"
    by (simp add: bit_ucast_iff bit_drop_bit_eq)
  finally show "bit (word_rcat (map (\<lambda>i. ucast (drop_bit (8 * i) w) :: byte) [7, 6, 5, 4, 3, 2, 1, 0]) :: 64 word) n
      = bit w n" .
qed

lemma ucast_byte_unit: "((ucast (ucast c :: byte) :: 16 word) = c) = (c \<le> 0xFF)"
proof -
  have "unat (ucast (ucast c :: byte) :: 16 word) = unat c mod 256"
    by (simp add: unsigned_ucast_eq take_bit_eq_mod unat_mod)
  then have "((ucast (ucast c :: byte) :: 16 word) = c) = (unat c mod 256 = unat c)"
    by (simp add: word_unat_eq_iff)
  also have "\<dots> = (unat c < 256)"
    by (metis mod_less mod_less_divisor zero_less_numeral)
  also have "\<dots> = (c \<le> 0xFF)"
    by (simp add: word_le_nat_alt) linarith
  finally show ?thesis .
qed

lemma latin1_roundtrip: "(map ucast (map ucast s :: Buffer) = (s :: jsstring)) = latin1 s"
  by (induction s) (simp_all add: latin1_def ucast_byte_unit)

text \<open>From here on the decoder is unfolded by hand.\<close>

declare fromBufferInternal.simps [simp del]
declare fromBufferInternalArrayDense.simps [simp del]
declare fromBufferInternalArraySparse.simps [simp del]
declare fromBufferInternalObjectGeneric.simps [simp del]

subsection \<open>Sized payloads\<close>

lemma fromBuffer_record:
  assumes "fromBufferInternal n fl hs (BufferReader_new (pre @ 0x00 # bs) (length pre + 1))
             = Some (Inr (v, r'))"
  shows "fromBuffer n fl hs (pre @ 0x00 # bs) (length pre) = Some (Inr v)"
  using assms by (simp add: fromBuffer_def andThenF_def nth_append)

lemma remaining_new: "remaining (BufferReader_new (pre @ bs) (length pre)) = bs"
  by (simp add: remaining_def BufferReader_new_def)

lemma sizeBytes:
  assumes "n < 0x1FFFFFFF"
  shows "BufferWriter_size (int n) w = Inr (w @ [sizeBytes n])"
    and "sizeBytes n \<noteq> []" and "length (sizeBytes n) \<le> 4"
    and "remaining r = sizeBytes n @ rest \<Longrightarrow>
          BufferReader_size r = Inr (n, r\<lparr>offset := offset r + length (sizeBytes n)\<rparr>)"
proof -
  from size_roundtrip[of "int n"] assms
  obtain bs where bs: "bs \<noteq> []" "length bs \<le> 4"
    "\<And>w. BufferWriter_size (int n) w = Inr (w @ [bs])"
    "\<And>r rest. remaining r = bs @ rest \<Longrightarrow>
        BufferReader_size r = Inr (nat (int n), r\<lparr>offset := offset r + length bs\<rparr>)"
    by auto
  have e: "sizeBytes n = bs" by (simp add: sizeBytes_def bs(3))
  show "BufferWriter_size (int n) w = Inr (w @ [sizeBytes n])" by (simp add: e bs(3))
  show "sizeBytes n \<noteq> []" "length (sizeBytes n) \<le> 4" by (simp_all add: e bs)
  show "remaining r = sizeBytes n @ rest \<Longrightarrow>
          BufferReader_size r = Inr (n, r\<lparr>offset := offset r + length (sizeBytes n)\<rparr>)"
    using bs(4)[of r rest] by (simp add: e)
qed

lemma toBufferInternalString_segments:
  "length s < 0x1FFFFFFF \<Longrightarrow>
   toBufferInternalString s w = Inr (w @ [[0x73], sizeBytes (length s), map ucast s])"
  by (simp add: toBufferInternalString_def BufferWriter_uint8_def sizeBytes(1) BufferWriter_string_def)

lemma decode_string:
  fixes s :: Buffer
  assumes len: "length s < 0x1FFFFFFF"
    and rem: "remaining r = [0x73] @ sizeBytes (length s) @ s @ rest"
  shows "fromBufferInternal (Suc n) fl hs r
          = Some (Inr (VStr (map ucast s),
                       r\<lparr>offset := offset r + (1 + length (sizeBytes (length s)) + length s)\<rparr>))"
proof -
  let ?sz = "sizeBytes (length s)"
  let ?r1 = "r\<lparr>offset := offset r + 1\<rparr>"
  let ?r2 = "?r1\<lparr>offset := offset ?r1 + length ?sz\<rparr>"
  have 0: "remaining r = 0x73 # (?sz @ s @ rest)" using rem by simp
  have 1: "remaining ?r1 = ?sz @ (s @ rest)"
    using remaining_advance1[OF 0] .
  have 2: "remaining ?r2 = s @ rest"
    using remaining_advance[OF 1] .
  have 3: "BufferReader_string (length s) ?r2
      = (map ucast s, ?r2\<lparr>offset := offset ?r2 + length s\<rparr>)"
    using string_remaining[OF 2] by simp
  show ?thesis
    using uint8_remaining[OF 0] sizeBytes(4)[OF len 1] 3
    by (simp add: fromBufferInternal.simps add.assoc)
qed

lemma decode_buffer:
  fixes s :: Buffer
  assumes len: "length s < 0x1FFFFFFF"
    and rem: "remaining r = [0x42] @ sizeBytes (length s) @ s @ rest"
  shows "fromBufferInternal (Suc n) fl hs r
          = Some (Inr (VBuffer s,
                       r\<lparr>offset := offset r + (1 + length (sizeBytes (length s)) + length s)\<rparr>))"
proof -
  let ?sz = "sizeBytes (length s)"
  let ?r1 = "r\<lparr>offset := offset r + 1\<rparr>"
  let ?r2 = "?r1\<lparr>offset := offset ?r1 + length ?sz\<rparr>"
  have 0: "remaining r = 0x42 # (?sz @ s @ rest)" using rem by simp
  have 1: "remaining ?r1 = ?sz @ (s @ rest)"
    using remaining_advance1[OF 0] .
  have 2: "remaining ?r2 = s @ rest"
    using remaining_advance[OF 1] .
  have 3: "BufferReader_buffer (length s) ?r2
      = (s, ?r2\<lparr>offset := offset ?r2 + length s\<rparr>)"
    using buffer_remaining[OF 2] by simp
  show ?thesis
    using uint8_remaining[OF 0] sizeBytes(4)[OF len 1] 3
    by (simp add: fromBufferInternal.simps add.assoc)
qed

subsection \<open>The claims on sizes and lists\<close>

text \<open>
  C6. The size codec, decode after encode, is the identity at 0, 0x7E, 0x7F, 0x3FFF, 0x4000
  and 0x1FFFFFFE, and encoding fails at -1 and at 0x20000000.
\<close>

theorem size_codec_boundaries:
  "size_codec 0 = Inr 0 \<and> size_codec 0x7E = Inr 0x7E \<and> size_codec 0x7F = Inr 0x7F
   \<and> size_codec 0x3FFF = Inr 0x3FFF \<and> size_codec 0x4000 = Inr 0x4000
   \<and> size_codec 0x1FFFFFFE = Inr 0x1FFFFFFE
   \<and> BufferWriter_size (- 1) BufferWriter_new = Inl SizesMustBePositive
   \<and> BufferWriter_size 0x20000000 BufferWriter_new = Inl (SizeTooLarge 0x20000000)"
  by (simp add: size_codec_def writer_defs reader_defs)

text \<open>
  C5. The widths of an encoded size: one byte up to 0x7E, two bytes from 0x7F to 0x3FFF,
  four bytes from 0x4000 to 0x1FFFFFFF, the smallest width that fits. The thresholds of
  \<open>BufferWriter.size\<close> are strict: 0x3FFF is written on four bytes, 0x1FFFFFFF is refused,
  and 0x7F, which fits a single byte, is written on two.
\<close>

theorem encodeSize_thresholds:
  "encodeSize 0x3FFF = Inr [0xC0, 0x00, 0x3F, 0xFF]
   \<and> encodeSize 0x1FFFFFFF = Inl (SizeTooLarge 0x1FFFFFFF)
   \<and> encodeSize 0x7F = Inr [0x80, 0x7F]"
  by (simp add: encodeSize_def writer_defs)

lemma toBufferInternalKey_2:
  "toBufferInternalKey fl hs (toString 2) w = Inr (w @ [[0x2B], [0x02]])"
  apply (simp add: toString.simps)
  apply (simp add: keyPattern_test_def toNumber_def)
  apply (simp add: toBufferInternalNumber_def writer_defs)
  done

text \<open>
  C8. The list \<open>[1, true]\<close> is written in the dense form, \<open>61 2B 01 74 21\<close>, and as a record
  \<open>00 61 2B 01 74 21\<close>. An array whose only own property is the index 2 is written in the
  sparse form, with the number 2 as the key of its only pair.
\<close>

theorem dense_and_sparse_examples:
  "map_sum id concat (toBufferInternal fl hs (VArray [Some (VNum 1), Some (VBool True)] []) [])
     = Inr [0x61, 0x2B, 0x01, 0x74, 0x21]
   \<and> toBuffer fl hs (VArray [Some (VNum 1), Some (VBool True)] [])
     = Inr [0x00, 0x61, 0x2B, 0x01, 0x74, 0x21]
   \<and> toBufferInternal fl hs (VArray [None, None, Some v] []) w
     = andThen (toBufferInternal fl hs v (w @ [[0x41], [0x2B], [0x02]]))
         (\<lambda>w'. Inr (w' @ [[0x21]]))
   \<and> toBuffer fl hs (VArray [None, None, Some (VStr [0x74, 0x77, 0x6F])] [])
     = Inr [0x00, 0x41, 0x2B, 0x02, 0x73, 0x03, 0x74, 0x77, 0x6F, 0x21]"
proof -
  have dense: "toBufferInternal fl hs (VArray [Some (VNum 1), Some (VBool True)] []) w'
      = Inr (w' @ [[0x61], [0x2B], [0x01], [0x74], [0x21]])" for w'
    by (simp add: writer_defs toBufferInternalNumber_def toBufferInternalBoolean_def
        isOwnSlot_def isUndefinedSlot_def)
  have sparse: "toBufferInternal fl hs (VArray [None, None, Some v'] []) w'
      = andThen (toBufferInternal fl hs v' (w' @ [[0x41], [0x2B], [0x02]]))
          (\<lambda>w''. Inr (w'' @ [[0x21]]))" for v' w'
    apply (simp add: isOwnSlot_def isUndefinedSlot_def BufferWriter_string_def
        del: toBufferInternalKey.simps)
    apply (simp add: numeral_2_eq_2[symmetric] toBufferInternalKey_2
        del: toBufferInternalKey.simps)
    apply (simp add: andThen_def split: sum.splits)
    done
  have two: "toBufferInternal fl hs (VStr [0x74, 0x77, 0x6F]) w'
      = Inr (w' @ [[0x73], [0x03], [0x74, 0x77, 0x6F]])" for w'
    by (simp add: toBufferInternalString_def writer_defs)
  show ?thesis
    unfolding toBuffer_def dense sparse two
    by (simp add: BufferWriter_uint8_def BufferWriter_new_def BufferWriter_toBuffer_def)
qed

subsection \<open>Numbers\<close>

text \<open>
  C7. A number with no fractional part is written under the tag of the smallest of the
  widths 8, 16 and 32 bits that holds its magnitude: \<open>+\<close>, \<open>p\<close>, \<open>P\<close> when it is not
  negative, \<open>-\<close>, \<open>i\<close>, \<open>I\<close> followed by the absolute value when it is. Every other number,
  with a fractional part or beyond 32 bits, is written as \<open>d\<close> and the 8 bytes of its
  double, the most significant first. So 62 is written under \<open>+\<close>, -300 under \<open>i\<close>, -203040
  under \<open>I\<close> and 1.25 under \<open>d\<close>. The negative zero is written as the 8-bit integer 0 under
  \<open>+\<close>, \<open>NaN\<close> and the infinities as doubles.
\<close>

theorem toBufferInternalNumber_tags:
  fixes n :: int and x :: rat and fl :: float64 and s :: special
  defines "b \<equiv> doubleBits fl (Finite x)" and "c \<equiv> doubleBits fl (Special s)"
  shows
  "(0 \<le> n \<and> n \<le> 0xFF \<longrightarrow>
      toBufferInternalNumber fl (of_int n) w = Inr (w @ [[0x2B], [word_of_int n]]))
   \<and> (0xFF < n \<and> n \<le> 0xFFFF \<longrightarrow>
      toBufferInternalNumber fl (of_int n) w
        = Inr (w @ [[0x70], [word_of_int (n div 0x100), word_of_int n]]))
   \<and> (0xFFFF < n \<and> n \<le> 0xFFFFFFFF \<longrightarrow>
      toBufferInternalNumber fl (of_int n) w
        = Inr (w @ [[0x50], [word_of_int (n div 0x1000000), word_of_int (n div 0x10000),
                             word_of_int (n div 0x100), word_of_int n]]))
   \<and> (n < 0 \<and> - 0xFF \<le> n \<longrightarrow>
      toBufferInternalNumber fl (of_int n) w = Inr (w @ [[0x2D], [word_of_int (- n)]]))
   \<and> (n < - 0xFF \<and> - 0xFFFF \<le> n \<longrightarrow>
      toBufferInternalNumber fl (of_int n) w
        = Inr (w @ [[0x69], [word_of_int (- n div 0x100), word_of_int (- n)]]))
   \<and> (n < - 0xFFFF \<and> - 0xFFFFFFFF \<le> n \<longrightarrow>
      toBufferInternalNumber fl (of_int n) w
        = Inr (w @ [[0x49], [word_of_int (- n div 0x1000000), word_of_int (- n div 0x10000),
                             word_of_int (- n div 0x100), word_of_int (- n)]]))
   \<and> (of_int \<lfloor>x\<rfloor> \<noteq> x \<or> 0xFFFFFFFF < \<bar>x\<bar> \<longrightarrow>
      toBufferInternalNumber fl x w
        = Inr (w @ [[0x64], [ucast (drop_bit 56 b), ucast (drop_bit 48 b), ucast (drop_bit 40 b),
                             ucast (drop_bit 32 b), ucast (drop_bit 24 b), ucast (drop_bit 16 b),
                             ucast (drop_bit 8 b), ucast b]]))
   \<and> toBufferInternalNumber_special fl NegativeZero w = Inr (w @ [[0x2B], [0x00]])
   \<and> (s \<noteq> NegativeZero \<longrightarrow>
      toBufferInternalNumber_special fl s w
        = Inr (w @ [[0x64], [ucast (drop_bit 56 c), ucast (drop_bit 48 c), ucast (drop_bit 40 c),
                             ucast (drop_bit 32 c), ucast (drop_bit 24 c), ucast (drop_bit 16 c),
                             ucast (drop_bit 8 c), ucast c]]))"
proof -
  have ab: "\<bar>rat_of_int n\<bar> = of_int \<bar>n\<bar>" by simp
  show ?thesis
    unfolding b_def c_def
    by (auto simp add: toBufferInternalNumber_def toBufferInternalNumber_special_def
        BufferWriter_uint8_def BufferWriter_uint16_def
        BufferWriter_uint32_def BufferWriter_double_def ab simp del: of_int_abs)
qed

theorem toBufferInternalNumber_tags_examples:
  "toBufferInternalNumber sampleFloat64 62 [] = Inr [[0x2B], [0x3E]]
   \<and> toBufferInternalNumber sampleFloat64 (- 300) [] = Inr [[0x69], [0x01, 0x2C]]
   \<and> toBufferInternalNumber sampleFloat64 (- 203040) [] = Inr [[0x49], [0x00, 0x03, 0x19, 0x20]]
   \<and> toBufferInternalNumber sampleFloat64 (5 / 4) []
        = Inr [[0x64], [0x3F, 0xF4, 0x00, 0x00, 0x00, 0x00, 0x00, 0x00]]"
proof -
  have f: "\<lfloor>5 / 4 :: rat\<rfloor> = 1" by (simp add: floor_eq_iff)
  show ?thesis
    using toBufferInternalNumber_tags[where n = 62 and fl = sampleFloat64 and w = "[]"
          and x = "5 / 4" and s = NaN]
      toBufferInternalNumber_tags[where n = "- 300" and fl = sampleFloat64 and w = "[]"
          and x = "5 / 4" and s = NaN]
      toBufferInternalNumber_tags[where n = "- 203040" and fl = sampleFloat64 and w = "[]"
          and x = "5 / 4" and s = NaN]
    by (simp add: sampleFloat64_def f)
qed

subsection \<open>Text\<close>

text \<open>
  C9. The payload of an encoded string holds one byte for every code unit, the low 8 bits
  of the unit, and the size before it is the number of code units. Decoding gives back
  every unit cut to its low 8 bits, so the string comes back unchanged exactly when all its
  units are at most 0xFF. A string of JavaScript is shorter than 0x1FFFFFFF units, the
  sizes that \<open>BufferWriter.size\<close> accepts.
\<close>

theorem toBufferInternalString_bytes:
  fixes s :: jsstring
  assumes "length s < 0x1FFFFFFF"
  shows "toBufferInternalString s w = Inr (w @ [[0x73], sizeBytes (length s), map ucast s])
    \<and> BufferReader_size (BufferReader_new (sizeBytes (length s)) 0)
        = Inr (length s, BufferReader_new (sizeBytes (length s)) (length (sizeBytes (length s))))
    \<and> length (map ucast s :: Buffer) = length s
    \<and> toBuffer fl hs (VStr s) = Inr ([0x00, 0x73] @ sizeBytes (length s) @ map ucast s)
    \<and> fromBuffer (Suc n) fl hs ([0x00, 0x73] @ sizeBytes (length s) @ map ucast s) 0
        = Some (Inr (VStr (map (\<lambda>c. ucast (ucast c :: byte)) s)))
    \<and> ((fromBuffer (Suc n) fl hs ([0x00, 0x73] @ sizeBytes (length s) @ map ucast s) 0
          = Some (Inr (VStr s)))
        = list_all (\<lambda>c. c \<le> 0xFF) s)"
proof -
  let ?sz = "sizeBytes (length s)"
  let ?p = "map ucast s :: Buffer"
  let ?b = "[0x00, 0x73] @ ?sz @ ?p"
  have 0: "toBufferInternalString s w' = Inr (w' @ [[0x73], ?sz, ?p])" for w'
    using assms by (rule toBufferInternalString_segments)
  have 1: "BufferReader_size (BufferReader_new ?sz 0)
      = Inr (length s, BufferReader_new ?sz (length ?sz))"
    using sizeBytes(4)[OF assms, of "BufferReader_new ?sz 0" "[]"]
    by (simp add: remaining_def BufferReader_new_def)
  have 2: "toBuffer fl hs (VStr s) = Inr ?b"
    by (simp add: toBuffer_def 0 BufferWriter_uint8_def BufferWriter_new_def
        BufferWriter_toBuffer_def)
  have l: "length ?p < 0x1FFFFFFF" using assms by simp
  have "remaining (BufferReader_new ([] @ 0x00 # ([0x73] @ ?sz @ ?p)) (length ([]::Buffer) + 1))
      = [0x73] @ sizeBytes (length ?p) @ ?p @ []"
    by (simp add: remaining_def BufferReader_new_def)
  from decode_string[OF l this, of n fl hs]
  have 3: "fromBuffer (Suc n) fl hs ?b 0 = Some (Inr (VStr (map ucast ?p)))"
    using fromBuffer_record[of "Suc n" fl hs "[]" "[0x73] @ ?sz @ ?p"] by simp
  have 4: "(map ucast ?p = s) = list_all (\<lambda>c. c \<le> 0xFF) s"
    using latin1_roundtrip[of s] by (simp add: latin1_def)
  have 5: "map (\<lambda>c. ucast (ucast c :: byte)) s = map ucast ?p" by simp
  show ?thesis
    unfolding 5 using 0 1 2 3 4 by simp
qed

theorem toBufferInternalString_bytes_examples:
  "toBufferInternalString [0x61, 0x62, 0x63] [] = Inr [[0x73], [0x03], [0x61, 0x62, 0x63]]
   \<and> fromBuffer 1 sampleFloat64 [] [0x00, 0x73, 0x03, 0x61, 0x62, 0x63] 0
        = Some (Inr (VStr [0x61, 0x62, 0x63]))
   \<and> toBuffer sampleFloat64 [] (VStr [0x20AC]) = Inr [0x00, 0x73, 0x01, 0xAC]
   \<and> fromBuffer 1 sampleFloat64 [] [0x00, 0x73, 0x01, 0xAC] 0 = Some (Inr (VStr [0xAC]))"
proof -
  have sz: "sizeBytes (Suc (Suc (Suc 0))) = [0x03]" "sizeBytes (Suc 0) = [0x01]"
    by (simp_all add: sizeBytes_def BufferWriter_size_def BufferWriter_uint8_def)
  have b: "(0x20AC :: byte) = 0xAC" by simp
  show ?thesis
    using toBufferInternalString_bytes[of "[0x61, 0x62, 0x63]" "[]" sampleFloat64 "[]" 0]
      toBufferInternalString_bytes[of "[0x20AC]" "[]" sampleFloat64 "[]" 0]
    by (simp add: sz b)
qed

subsection \<open>Timestamps\<close>

lemma decode_dateD:
  assumes "remaining r = 0x44 # a # b # c # d # e # f # rest"
  shows "fromBufferInternal (Suc n) fl hs r
    = Some (Inr (VDate (int ((unat a * 0x1000000 + unat b * 0x10000 + unat c * 0x100 + unat d) * 1000
                             + (unat e * 0x100 + unat f))),
                 r\<lparr>offset := offset r + 7\<rparr>))"
proof -
  let ?r1 = "r\<lparr>offset := offset r + 1\<rparr>"
  have 1: "remaining ?r1 = a # b # c # d # e # f # rest"
    using assms by (rule remaining_advance1)
  have 2: "remaining (?r1\<lparr>offset := offset ?r1 + 4\<rparr>) = e # f # rest"
    by (rule remaining_advance_k[where bs = "[a, b, c, d]"]) (use 1 in simp_all)
  show ?thesis
    using uint8_remaining[OF assms] uint32_remaining[OF 1] uint16_remaining[OF 2]
    by (simp add: fromBufferInternal.simps fromBufferInternalObjectDateD_def)
qed

lemma decode_dateT:
  assumes "remaining r = 0x54 # a # b # c # d # rest"
  shows "fromBufferInternal (Suc n) fl hs r
    = Some (Inr (VDate (int ((unat a * 0x1000000 + unat b * 0x10000 + unat c * 0x100 + unat d) * 1000)),
                 r\<lparr>offset := offset r + 5\<rparr>))"
proof -
  let ?r1 = "r\<lparr>offset := offset r + 1\<rparr>"
  have 1: "remaining ?r1 = a # b # c # d # rest"
    using assms by (rule remaining_advance1)
  show ?thesis
    using uint8_remaining[OF assms] uint32_remaining[OF 1]
    by (simp add: fromBufferInternal.simps fromBufferInternalObjectDateT_def)
qed

lemma toBufferInternalObjectDate_segments:
  assumes "0 \<le> t" "t < 2 ^ 32 * 1000"
  shows "toBufferInternalObjectDate t w =
    Inr (w @ (if t mod 1000 \<noteq> 0
              then [[0x44],
                    [word_of_int (t div 1000 div 0x1000000), word_of_int (t div 1000 div 0x10000),
                     word_of_int (t div 1000 div 0x100), word_of_int (t div 1000)],
                    [word_of_int (t mod 1000 div 0x100), word_of_int (t mod 1000)]]
              else [[0x54],
                    [word_of_int (t div 1000 div 0x1000000), word_of_int (t div 1000 div 0x10000),
                     word_of_int (t div 1000 div 0x100), word_of_int (t div 1000)]]))"
proof -
  have s: "0 \<le> t div 1000" "t div 1000 \<le> 0xFFFFFFFF" using assms by simp_all
  have m: "js_rem t 1000 = t mod 1000" using assms by (simp add: js_rem_def)
  have m2: "t mod 1000 \<le> 0xFFFF"
    using pos_mod_bound[of 1000 t] by simp
  show ?thesis
    using s m2
    by (simp add: toBufferInternalObjectDate_def m BufferWriter_uint8_def BufferWriter_uint32_def
        BufferWriter_uint16_def Let_def)
qed

lemma toBufferInternalObjectDate_RangeError:
  assumes "t < 0 \<or> 2 ^ 32 * 1000 \<le> t"
  shows "toBufferInternalObjectDate t w = Inl RangeError"
proof -
  have "t div 1000 < 0 \<or> 0xFFFFFFFF < t div 1000" using assms by auto
  then show ?thesis
    by (auto simp add: toBufferInternalObjectDate_def BufferWriter_uint8_def
        BufferWriter_uint32_def Let_def)
qed

text \<open>
  C10. Encoding a date before the epoch, or at or after \<open>2^32\<close> seconds past it, throws:
  the seconds, and the milliseconds after them, are written as unsigned integers whose range
  is checked. Inside that range a date is read back as it was written.
\<close>

theorem toBufferInternalObjectDate_range:
  "(t < 0 \<or> 2 ^ 32 * 1000 \<le> t \<longrightarrow>
      toBufferInternalObjectDate t w = Inl RangeError
      \<and> toBuffer fl [] (VDate t) = Inl RangeError)
   \<and> (0 \<le> t \<and> t < 2 ^ 32 * 1000 \<longrightarrow>
      (\<exists>b. toBuffer fl [] (VDate t) = Inr b
         \<and> fromBuffer (Suc n) fl hs b 0 = Some (Inr (VDate t))))"
proof (intro conjI impI)
  assume a: "t < 0 \<or> 2 ^ 32 * 1000 \<le> t"
  show "toBufferInternalObjectDate t w = Inl RangeError"
    using a by (rule toBufferInternalObjectDate_RangeError)
  show "toBuffer fl [] (VDate t) = Inl RangeError"
    by (simp add: toBuffer_def BufferWriter_uint8_def BufferWriter_new_def
        toBufferInternalObjectDate_RangeError[OF a])
next
  assume a: "0 \<le> t \<and> t < 2 ^ 32 * 1000"
  then have t: "0 \<le> t" "t < 2 ^ 32 * 1000" by simp_all
  define s where "s = t div 1000"
  define m where "m = t mod 1000"
  have s: "0 \<le> s" "s \<le> 0xFFFFFFFF" using t by (simp_all add: s_def)
  have m: "0 \<le> m" "m \<le> 0xFFFF" using pos_mod_bound[of 1000 t] by (simp_all add: m_def)
  have whole: "int (nat s * 1000 + nat m) = t"
    using s m by (simp add: s_def m_def)
  let ?S = "[word_of_int (s div 0x1000000), word_of_int (s div 0x10000),
             word_of_int (s div 0x100), word_of_int s] :: Buffer"
  let ?M = "[word_of_int (m div 0x100), word_of_int m] :: Buffer"
  show "\<exists>b. toBuffer fl [] (VDate t) = Inr b
         \<and> fromBuffer (Suc n) fl hs b 0 = Some (Inr (VDate t))"
  proof (cases "m = 0")
    case False
    have e: "toBuffer fl [] (VDate t) = Inr ([] @ 0x00 # ([0x44] @ ?S @ ?M))"
      using False
      by (simp add: toBuffer_def BufferWriter_uint8_def BufferWriter_new_def
          BufferWriter_toBuffer_def toBufferInternalObjectDate_segments[OF t]
          s_def[symmetric] m_def[symmetric])
    have r: "remaining (BufferReader_new ([] @ 0x00 # ([0x44] @ ?S @ ?M)) (length ([] :: Buffer) + 1))
        = 0x44 # word_of_int (s div 0x1000000) # word_of_int (s div 0x10000)
            # word_of_int (s div 0x100) # word_of_int s
            # word_of_int (m div 0x100) # word_of_int m # []"
      by (simp add: remaining_def BufferReader_new_def)
    have "fromBuffer (Suc n) fl hs ([] @ 0x00 # ([0x44] @ ?S @ ?M)) (length ([] :: Buffer))
        = Some (Inr (VDate t))"
      by (rule fromBuffer_record)
         (use decode_dateD[OF r, of n fl hs] in
           \<open>unfold unat_uint32[OF s] unat_uint16[OF m] whole\<close>)
    then show ?thesis using e by simp
  next
    case True
    have whole0: "int (nat s * 1000) = t" using whole True by simp
    have e: "toBuffer fl [] (VDate t) = Inr ([] @ 0x00 # ([0x54] @ ?S))"
      using True
      by (simp add: toBuffer_def BufferWriter_uint8_def BufferWriter_new_def
          BufferWriter_toBuffer_def toBufferInternalObjectDate_segments[OF t]
          s_def[symmetric] m_def[symmetric])
    have r: "remaining (BufferReader_new ([] @ 0x00 # ([0x54] @ ?S)) (length ([] :: Buffer) + 1))
        = 0x54 # word_of_int (s div 0x1000000) # word_of_int (s div 0x10000)
            # word_of_int (s div 0x100) # word_of_int s # []"
      by (simp add: remaining_def BufferReader_new_def)
    have "fromBuffer (Suc n) fl hs ([] @ 0x00 # ([0x54] @ ?S)) (length ([] :: Buffer))
        = Some (Inr (VDate t))"
      by (rule fromBuffer_record)
         (use decode_dateT[OF r, of n fl hs] in \<open>unfold unat_uint32[OF s] whole0\<close>)
    then show ?thesis using e by simp
  qed
qed

theorem toBufferInternalObjectDate_range_examples:
  "toBuffer sampleFloat64 [] (VDate (- 1)) = Inl RangeError
   \<and> toBuffer sampleFloat64 [] (VDate (- 1000)) = Inl RangeError
   \<and> toBuffer sampleFloat64 [] (VDate (2 ^ 32 * 1000)) = Inl RangeError
   \<and> (\<exists>b. toBuffer sampleFloat64 [] (VDate 1451651696001) = Inr b
        \<and> fromBuffer 1 sampleFloat64 [] b 0 = Some (Inr (VDate 1451651696001)))"
  using toBufferInternalObjectDate_range[of "- 1" "[]" sampleFloat64 0 "[]"]
    toBufferInternalObjectDate_range[of "- 1000" "[]" sampleFloat64 0 "[]"]
    toBufferInternalObjectDate_range[of "2 ^ 32 * 1000" "[]" sampleFloat64 0 "[]"]
    toBufferInternalObjectDate_range[of 1451651696001 "[]" sampleFloat64 0 "[]"]
  by simp

subsection \<open>Dispatch\<close>

lemma helpers_find:
  "toBufferInternalObject_helpers hs thing w =
     (case find (\<lambda>h. checkFn h thing) hs of
        None \<Rightarrow> None
      | Some h \<Rightarrow>
          Some (andThen (BufferWriter_size (int (length (name h))) (w @ [[0x5A]]))
                  (\<lambda>w1. toBufferFn h thing (w1 @ [map ucast (name h)]))))"
  by (induction hs) (simp_all add: BufferWriter_uint8_def BufferWriter_string_def)

text \<open>
  C3 as it is stated fails: a helper whose \<open>checkFn\<close> accepts every value is registered, and
  \<open>null\<close>, \<open>true\<close> and the empty list are still written under their own tags, not under the
  extension tag.
\<close>

theorem any_helper_not_consulted:
  "checkFn any_helper VNull
   \<and> toBuffer sampleFloat64 [any_helper] VNull = Inr [0x00, 0x6E]
   \<and> checkFn any_helper (VBool True)
   \<and> toBuffer sampleFloat64 [any_helper] (VBool True) = Inr [0x00, 0x74]
   \<and> checkFn any_helper (VArray [] [])
   \<and> toBuffer sampleFloat64 [any_helper] (VArray [] []) = Inr [0x00, 0x61, 0x21]"
  by (simp add: any_helper_def toBuffer_def writer_defs toBufferInternalBoolean_def)

text \<open>
  C3, amended. For a value that is an object, not \<open>null\<close> and not an array, the \<open>checkFn\<close> of
  the registered helpers are tried in the order of registration, before the checks for
  buffers, dates and patterns and before the generic encoding of objects; the first helper
  that accepts the value wins, and the value is written as the tag \<open>Z\<close>, the size of the
  helper's name, the name and the helper's payload. \<open>null\<close>, strings, numbers and booleans
  are written by their own handlers whatever helpers are registered, and an array goes to
  the encoding of lists with no helper asked about the array itself.
\<close>

theorem helpers_first_for_objects:
  "(reachesHelpers thing \<longrightarrow>
      toBufferInternal fl hs thing w =
        (case find (\<lambda>h. checkFn h thing) hs of
           Some h \<Rightarrow>
             andThen (BufferWriter_size (int (length (name h))) (w @ [[0x5A]]))
               (\<lambda>w1. toBufferFn h thing (w1 @ [map ucast (name h)]))
         | None \<Rightarrow>
             (case thing of
                VBuffer b \<Rightarrow> toBufferInternalObjectBuffer b w
              | VDate t \<Rightarrow> toBufferInternalObjectDate t w
              | VRegExp s g i m \<Rightarrow> toBufferInternalObjectRegExp s g i m w
              | VObject c props \<Rightarrow> toBufferInternalObjectGeneric fl hs props w
              | _ \<Rightarrow> Inl (InvalidType (typeof thing)))))
   \<and> (thing = VNull \<or> typeof thing = ''string'' \<or> typeof thing = ''number''
        \<or> typeof thing = ''boolean'' \<longrightarrow>
      toBufferInternal fl hs thing w = toBufferInternal fl [] thing w)
   \<and> toBufferInternal fl hs (VArray slots props) w = toBufferInternalArray fl hs slots props w"
  by (cases thing) (simp_all add: reachesHelpers_def helpers_find split: option.splits
      del: toBufferInternalArray.simps toBufferInternalObjectGeneric.simps)

theorem helpers_first_for_objects_examples:
  "toBuffer sampleFloat64 [Klass_helper] (VObject ''Klass'' [([0x76, 0x61, 0x6C], VNum 2)])
     = Inr [0x00, 0x5A, 0x05, 0x4B, 0x6C, 0x61, 0x73, 0x73, 0x02]
   \<and> toBuffer sampleFloat64 [any_helper, Klass_helper] (VDate 0) = Inr [0x00, 0x5A, 0x01, 0x78]
   \<and> toBuffer sampleFloat64 [Klass_helper] (VDate 0) = Inr [0x00, 0x54, 0x00, 0x00, 0x00, 0x00]
   \<and> toBuffer sampleFloat64 [any_helper] (VNum 1) = toBuffer sampleFloat64 [] (VNum 1)"
proof -
  have n: "toBufferInternal fl hs (VNum 1) w = toBufferInternal fl [] (VNum 1) w" for fl hs w
    using helpers_first_for_objects[of "VNum 1" fl hs w] by simp
  have k: "toBufferInternal sampleFloat64 [Klass_helper]
        (VObject ''Klass'' [([0x76, 0x61, 0x6C], VNum 2)]) w
      = Inr (w @ [[0x5A], [0x05], [0x4B, 0x6C, 0x61, 0x73, 0x73], [0x02]])" for w
    using helpers_first_for_objects[of "VObject ''Klass'' [([0x76, 0x61, 0x6C], VNum 2)]"
        sampleFloat64 "[Klass_helper]" w]
    by (simp add: reachesHelpers_def Klass_helper_def BufferWriter_size_def BufferWriter_uint8_def
        del: toBufferInternal.simps)
  have d: "toBufferInternal sampleFloat64 [any_helper, Klass_helper] (VDate 0) w
      = Inr (w @ [[0x5A], [0x01], [0x78]])" for w
    using helpers_first_for_objects[of "VDate 0" sampleFloat64 "[any_helper, Klass_helper]" w]
    by (simp add: reachesHelpers_def any_helper_def BufferWriter_size_def BufferWriter_uint8_def
        del: toBufferInternal.simps)
  have d2: "toBufferInternal sampleFloat64 [Klass_helper] (VDate 0) w
      = Inr (w @ [[0x54], [0x00, 0x00, 0x00, 0x00]])" for w
    using helpers_first_for_objects[of "VDate 0" sampleFloat64 "[Klass_helper]" w]
    by (simp add: reachesHelpers_def Klass_helper_def toBufferInternalObjectDate_def js_rem_def
        BufferWriter_uint32_def BufferWriter_uint8_def del: toBufferInternal.simps)
  have c4: "toBuffer sampleFloat64 [any_helper] (VNum 1) = toBuffer sampleFloat64 [] (VNum 1)"
    unfolding toBuffer_def by (simp only: n[of sampleFloat64 "[any_helper]"])
  have c123: "toBuffer sampleFloat64 [Klass_helper] (VObject ''Klass'' [([0x76, 0x61, 0x6C], VNum 2)])
     = Inr [0x00, 0x5A, 0x05, 0x4B, 0x6C, 0x61, 0x73, 0x73, 0x02]
   \<and> toBuffer sampleFloat64 [any_helper, Klass_helper] (VDate 0) = Inr [0x00, 0x5A, 0x01, 0x78]
   \<and> toBuffer sampleFloat64 [Klass_helper] (VDate 0) = Inr [0x00, 0x54, 0x00, 0x00, 0x00, 0x00]"
    unfolding toBuffer_def k d d2
    by (simp add: BufferWriter_uint8_def BufferWriter_new_def BufferWriter_toBuffer_def)
  show ?thesis using c123 c4 by blast
qed

subsection \<open>Absent values\<close>

lemma isl_andThen: "isl m \<or> (\<forall>x. isl (f x)) \<Longrightarrow> isl (andThen m f)"
  by (cases m) (auto simp: andThen_def)

lemma pairs_undefined:
  "(k, VUndefined) \<in> set props \<Longrightarrow> isl (toBufferInternal_pairs fl hs props w)"
proof (induction props arbitrary: w)
  case Nil
  then show ?case by simp
next
  case (Cons p props)
  obtain k' v' where p: "p = (k', v')" by (cases p)
  show ?case
  proof (cases "p = (k, VUndefined)")
    case True
    then show ?thesis
      by (auto simp add: p intro!: isl_andThen simp del: toBufferInternalKey.simps)
  next
    case False
    with Cons.prems have "(k, VUndefined) \<in> set props" by simp
    then have "isl (toBufferInternal_pairs fl hs props w')" for w'
      by (rule Cons.IH)
    then show ?thesis
      by (auto simp add: p intro!: isl_andThen simp del: toBufferInternalKey.simps)
  qed
qed

lemma pairs_append:
  "toBufferInternal_pairs fl hs (ps @ qs) w
     = andThen (toBufferInternal_pairs fl hs ps w) (toBufferInternal_pairs fl hs qs)"
proof (induction ps arbitrary: w)
  case Nil
  then show ?case by simp
next
  case (Cons p ps)
  obtain k v where p: "p = (k, v)" by (cases p)
  show ?case
    by (simp add: p Cons.IH andThen_def split: sum.splits del: toBufferInternalKey.simps)
qed

lemma slots_ownSlots:
  "toBufferInternalArray_slots fl hs i slots w = toBufferInternal_pairs fl hs (ownSlots i slots) w"
proof (induction slots arbitrary: i w)
  case Nil
  then show ?case by simp
next
  case (Cons s slots)
  then show ?case
    by (cases s) (simp_all add: andThen_def split: sum.splits del: toBufferInternalKey.simps)
qed

lemma sparse_form:
  assumes "None \<in> set slots \<or> Some VUndefined \<in> set slots \<or> props \<noteq> []"
  shows "toBufferInternalArray fl hs slots props w
     = andThen (toBufferInternal_pairs fl hs (ownSlots 0 slots @ props) (w @ [[0x41]]))
         (\<lambda>w'. Inr (w' @ [[0x21]]))"
proof -
  have "\<not> (length (filter isOwnSlot slots) + length props = length slots
            \<and> \<not> list_ex isUndefinedSlot slots)"
  proof
    assume d: "length (filter isOwnSlot slots) + length props = length slots
            \<and> \<not> list_ex isUndefinedSlot slots"
    then have u: "\<forall>s \<in> set slots. \<not> isUndefinedSlot s" by (simp add: list_ex_iff)
    then have "None \<notin> set slots" "Some VUndefined \<notin> set slots"
      by (auto simp: isUndefinedSlot_def)
    moreover have "\<forall>s \<in> set slots. isOwnSlot s"
      using u by (auto simp: isUndefinedSlot_def isOwnSlot_def split: option.splits)
    then have "filter isOwnSlot slots = slots" by (simp add: filter_id_conv)
    then have "props = []" using d by simp
    ultimately show False using assms by simp
  qed
  then have c: "(length (filter isOwnSlot slots) + length props = length slots
            \<and> \<not> list_ex isUndefinedSlot slots) = False" by simp
  show ?thesis
    unfolding toBufferInternalArray.simps c if_False
    by (simp add: slots_ownSlots pairs_append BufferWriter_string_def andThen_def
        split: sum.splits)
qed

lemma ownSlots_member:
  "Some v \<in> set slots \<Longrightarrow> \<exists>k. (k, v) \<in> set (ownSlots i slots)"
proof (induction slots arbitrary: i)
  case Nil
  then show ?case by simp
next
  case (Cons s slots)
  then show ?case by (cases s) auto
qed

text \<open>
  C4 as it is stated fails: an object, and a list, with a member that is \<open>undefined\<close> are not
  written without the member, their encoding throws.
\<close>

theorem undefined_member_throws:
  "toBuffer sampleFloat64 [] (VObject ''Object'' [([0x61], VUndefined)])
     = Inl (InvalidType ''undefined'')
   \<and> toBuffer sampleFloat64 [] (VArray [Some (VNum 1), Some VUndefined] [])
     = Inl (InvalidType ''undefined'')"
  by (simp add: toBuffer_def writer_defs keyPattern_test_def toBufferInternalString_def
      isOwnSlot_def isUndefinedSlot_def toString.simps toNumber_def toBufferInternalNumber_def)

text \<open>
  C4, amended. Encoding \<open>undefined\<close> as a bare value is rejected with the invalid type error.
  In a container, an absent slot of a list (a hole: an index below the length that is no
  own property) is omitted: a list with a hole is written in the sparse form, as the pairs
  of its own properties only. A member that is present with the value \<open>undefined\<close>, in an
  object or in a list, is not omitted: the encoding of the container throws.
\<close>

theorem undefined_and_holes:
  "toBuffer fl hs VUndefined = Inl (InvalidType ''undefined'')
   \<and> ((k, VUndefined) \<in> set props \<longrightarrow> isl (toBufferInternalObjectGeneric fl hs props w))
   \<and> (Some VUndefined \<in> set slots \<or> (k, VUndefined) \<in> set props \<longrightarrow>
        isl (toBufferInternalArray fl hs slots props w))
   \<and> (None \<in> set slots \<longrightarrow>
        toBufferInternalArray fl hs slots props w
          = andThen (toBufferInternal_pairs fl hs (ownSlots 0 slots @ props) (w @ [[0x41]]))
              (\<lambda>w'. Inr (w' @ [[0x21]])))"
proof (intro conjI impI)
  show "toBuffer fl hs VUndefined = Inl (InvalidType ''undefined'')"
    by (simp add: toBuffer_def BufferWriter_uint8_def BufferWriter_new_def)
next
  assume "(k, VUndefined) \<in> set props"
  then show "isl (toBufferInternalObjectGeneric fl hs props w)"
    by (auto intro!: isl_andThen pairs_undefined)
next
  assume a: "Some VUndefined \<in> set slots \<or> (k, VUndefined) \<in> set props"
  then have "\<exists>k'. (k', VUndefined) \<in> set (ownSlots 0 slots @ props)"
    using ownSlots_member[of VUndefined slots 0] by auto
  then obtain k' where "(k', VUndefined) \<in> set (ownSlots 0 slots @ props)" ..
  then have "isl (toBufferInternal_pairs fl hs (ownSlots 0 slots @ props) (w @ [[0x41]]))"
    by (rule pairs_undefined)
  moreover have "None \<in> set slots \<or> Some VUndefined \<in> set slots \<or> props \<noteq> []"
    using a by auto
  ultimately show "isl (toBufferInternalArray fl hs slots props w)"
    by (simp only: sparse_form) (rule isl_andThen, simp)
next
  assume "None \<in> set slots"
  then have "None \<in> set slots \<or> Some VUndefined \<in> set slots \<or> props \<noteq> []" by simp
  then show "toBufferInternalArray fl hs slots props w
          = andThen (toBufferInternal_pairs fl hs (ownSlots 0 slots @ props) (w @ [[0x41]]))
              (\<lambda>w'. Inr (w' @ [[0x21]]))"
    by (rule sparse_form)
qed

theorem undefined_and_holes_examples:
  "toBuffer sampleFloat64 [] VUndefined = Inl (InvalidType ''undefined'')
   \<and> isl (toBufferInternalObjectGeneric sampleFloat64 [] [([0x61], VUndefined)] [])
   \<and> isl (toBufferInternalArray sampleFloat64 [] [Some VUndefined] [] [])
   \<and> toBufferInternalArray sampleFloat64 [] [None, None, Some (VStr [0x74, 0x77, 0x6F])] [] []
       = Inr [[0x41], [0x2B], [0x02], [0x73], [0x03], [0x74, 0x77, 0x6F], [0x21]]"
proof -
  have k: "toBufferInternalKey sampleFloat64 [] (toString (Suc (Suc 0))) w
      = Inr (w @ [[0x2B], [0x02]])" for w
    using toBufferInternalKey_2[of sampleFloat64 "[]" w] by (simp add: numeral_2_eq_2)
  have s: "toBufferInternalString [0x74, 0x77, 0x6F] w = Inr (w @ [[0x73], [0x03], [0x74, 0x77, 0x6F]])" for w
    by (simp add: toBufferInternalString_def writer_defs)
  show ?thesis
    using undefined_and_holes[of sampleFloat64 "[]" "[0x61]" "[([0x61], VUndefined)]" "[]" "[]"]
      undefined_and_holes[of sampleFloat64 "[]" "[0x61]" "[]" "[]" "[Some VUndefined]"]
      undefined_and_holes[of sampleFloat64 "[]" "[0x61]" "[]" "[]"
        "[None, None, Some (VStr [0x74, 0x77, 0x6F])]"]
    by (simp add: k s del: toBufferInternalKey.simps toBufferInternalArray.simps
        toBufferInternalObjectGeneric.simps)
qed


subsection \<open>Decimal numerals\<close>
lemma toNumber_snoc: "toNumber (s @ [c]) = 10 * toNumber s + (unat c - 48)"
  by (simp add: toNumber_def)

lemma unat_digit: "d < 10 \<Longrightarrow> unat (48 + of_nat d :: 16 word) = 48 + d"
proof -
  assume d: "d < 10"
  have "(48 + of_nat d :: 16 word) = of_nat (48 + d)" by simp
  then have "unat (48 + of_nat d :: 16 word) = (48 + d) mod 2 ^ 16"
    by (simp only: unat_of_nat len_of_numeral_defs) simp
  with d show ?thesis by simp
qed

lemma isDigit_of_nat: "d < 10 \<Longrightarrow> isDigit (48 + of_nat d)"
  by (simp add: isDigit_def word_le_nat_alt unat_digit)

lemma isDigit_unat: "isDigit c \<Longrightarrow> 48 \<le> unat c \<and> unat c - 48 < 10"
  by (auto simp add: isDigit_def word_le_nat_alt)

lemma of_nat_digit: "isDigit c \<Longrightarrow> (of_nat (48 + (unat c - 48)) :: 16 word) = c"
  using isDigit_unat[of c] by simp

lemma toNumber_toString: "toNumber (toString n) = n"
proof (induction n rule: toString.induct)
  case (1 n)
  show ?case
  proof (cases "n < 10")
    case True
    then show ?thesis
      by (subst toString.simps) (simp add: toNumber_def unat_digit)
  next
    case False
    have "n mod 10 < 10" by simp
    then have d: "unat (48 + of_nat (n mod 10) :: 16 word) = 48 + n mod 10"
      by (rule unat_digit)
    show ?thesis
      using False 1
      by (subst toString.simps) (simp add: toNumber_snoc d)
  qed
qed

lemma toString_digits: "list_all isDigit (toString n)"
proof (induction n rule: toString.induct)
  case (1 n)
  show ?case
  proof (cases "n < 10")
    case True
    then show ?thesis
      by (subst toString.simps) (simp add: isDigit_of_nat)
  next
    case False
    then show ?thesis
      using 1 by (subst toString.simps) (simp add: isDigit_of_nat)
  qed
qed

lemma toString_Cons: "\<exists>c cs. toString n = c # cs \<and> (0 < n \<longrightarrow> 0x31 \<le> c \<and> c \<le> 0x39)"
proof (induction n rule: toString.induct)
  case (1 n)
  show ?case
  proof (cases "n < 10")
    case True
    then have "0 < n \<Longrightarrow> (0x31 :: 16 word) \<le> 48 + of_nat n \<and> (48 + of_nat n :: 16 word) \<le> 0x39"
      by (simp add: word_le_nat_alt unat_digit)
    with True show ?thesis
      by (subst toString.simps) simp
  next
    case False
    then have "0 < n div 10" by simp
    with 1 False obtain c cs where "toString (n div 10) = c # cs" "0x31 \<le> c \<and> c \<le> 0x39"
      by auto
    with False show ?thesis
      by (subst toString.simps) simp
  qed
qed

lemma toString_0: "toString 0 = [0x30]"
  by (subst toString.simps) simp

lemma keyPattern_test_toString: "keyPattern_test (toString n)"
proof -
  obtain c cs where c: "toString n = c # cs" "0 < n \<longrightarrow> 0x31 \<le> c \<and> c \<le> 0x39"
    using toString_Cons[of n] by blast
  have d: "list_all isDigit cs" using toString_digits[of n] c by simp
  show ?thesis
  proof (cases "n = 0")
    case True
    then show ?thesis by (simp add: toString_0 keyPattern_test_def)
  next
    case False
    then show ?thesis using c d by (simp add: keyPattern_test_def)
  qed
qed

lemma keyPattern_test_digits: "keyPattern_test k \<Longrightarrow> list_all isDigit k"
  by (cases k) (auto simp add: keyPattern_test_def isDigit_def word_le_nat_alt)

lemma keyPattern_test_butlast:
  "keyPattern_test (ks @ [d]) \<Longrightarrow> ks \<noteq> [] \<Longrightarrow> keyPattern_test ks \<and> hd ks \<noteq> 0x30"
  by (cases ks) (auto simp add: keyPattern_test_def)

lemma toString_toNumber: "keyPattern_test k \<Longrightarrow> toString (toNumber k) = k"
proof (induction k rule: rev_induct)
  case Nil
  then show ?case by (simp add: keyPattern_test_def)
next
  case (snoc d ks)
  have dg: "isDigit d" using keyPattern_test_digits[OF snoc.prems] by simp
  note du = isDigit_unat[OF dg]
  show ?case
  proof (cases "ks = []")
    case True
    have "toNumber [d] = unat d - 48" by (simp add: toNumber_def)
    then show ?thesis
      using True du of_nat_digit[OF dg] by (subst toString.simps) simp
  next
    case False
    from keyPattern_test_butlast[OF snoc.prems False]
    have k: "keyPattern_test ks" and h: "hd ks \<noteq> 0x30" by simp_all
    from snoc.IH[OF k] have ih: "toString (toNumber ks) = ks" .
    have pos: "0 < toNumber ks"
    proof (rule ccontr)
      assume "\<not> 0 < toNumber ks"
      then have "toNumber ks = 0" by simp
      with ih have "ks = [0x30]" by (simp add: toString_0)
      with h show False by simp
    qed
    let ?m = "10 * toNumber ks + (unat d - 48)"
    have lt: "unat d - 48 < 10" using du by simp
    have m: "\<not> ?m < 10" "?m div 10 = toNumber ks" "?m mod 10 = unat d - 48"
      using pos lt by (simp_all del: diff_is_0_eq')
    show ?thesis
      unfolding toNumber_snoc
      by (subst toString.simps) (simp only: m if_False ih of_nat_digit[OF dg])
  qed
qed


subsection \<open>Round trips of scalars\<close>

lemma roundTripsI:
  assumes enc: "\<And>w. toBufferInternal fl hs v w = Inr (w @ segs)"
    and bs: "concat segs = bs" "bs \<noteq> []" "hd bs \<noteq> 0x21"
    and dec: "\<And>n r rest. N \<le> n \<Longrightarrow> remaining r = bs @ rest \<Longrightarrow>
       fromBufferInternal n fl hs r = Some (Inr (v, r\<lparr>offset := offset r + length bs\<rparr>))"
  shows "roundTrips fl hs v"
proof -
  have s: "segments fl hs v = segs" using enc[of "[]"] by (simp add: segments_def)
  then have b: "bytes fl hs v = bs" using bs(1) by (simp add: bytes_def)
  show ?thesis
    unfolding roundTrips_def b s
    using enc bs(2,3) dec by blast
qed

lemma roundTripsI1:
  assumes enc: "\<And>w. toBufferInternal fl hs v w = Inr (w @ segs)"
    and bs: "concat segs = bs" "bs \<noteq> []" "hd bs \<noteq> 0x21"
    and dec: "\<And>n r rest. remaining r = bs @ rest \<Longrightarrow>
       fromBufferInternal (Suc n) fl hs r = Some (Inr (v, r\<lparr>offset := offset r + length bs\<rparr>))"
  shows "roundTrips fl hs v"
proof (rule roundTripsI[OF enc bs, of 1])
  fix n r rest
  assume "(1::nat) \<le> n" and r: "remaining r = bs @ rest"
  then obtain m where "n = Suc m" by (cases n) simp_all
  then show "fromBufferInternal n fl hs r = Some (Inr (v, r\<lparr>offset := offset r + length bs\<rparr>))"
    using dec[OF r] by simp
qed

lemma roundTrips_encode:
  "roundTrips fl hs v \<Longrightarrow> toBufferInternal fl hs v w = Inr (w @ segments fl hs v)"
  by (simp add: roundTrips_def)

lemma roundTrips_bytes:
  "roundTrips fl hs v \<Longrightarrow> bytes fl hs v \<noteq> [] \<and> hd (bytes fl hs v) \<noteq> 0x21"
  by (simp add: roundTrips_def)

lemma roundTrips_decode:
  assumes "roundTrips fl hs v"
  obtains N where "\<And>n r rest. N \<le> n \<Longrightarrow> remaining r = bytes fl hs v @ rest \<Longrightarrow>
       fromBufferInternal n fl hs r
         = Some (Inr (v, r\<lparr>offset := offset r + length (bytes fl hs v)\<rparr>))"
  using assms unfolding roundTrips_def by blast

lemma roundTrips_null: "roundTrips fl hs VNull"
  by (rule roundTripsI1[where segs = "[[0x6E]]" and bs = "[0x6E]"])
     (simp_all add: BufferWriter_uint8_def decode_null)

lemma roundTrips_boolean: "roundTrips fl hs (VBool b)"
proof -
  have t: "roundTrips fl hs (VBool True)"
    by (rule roundTripsI1[where segs = "[[0x74]]" and bs = "[0x74]"])
       (simp_all add: toBufferInternalBoolean_def BufferWriter_uint8_def decode_true)
  have f: "roundTrips fl hs (VBool False)"
    by (rule roundTripsI1[where segs = "[[0x66]]" and bs = "[0x66]"])
       (simp_all add: toBufferInternalBoolean_def BufferWriter_uint8_def decode_false)
  show ?thesis using t f by (cases b) simp_all
qed

lemma toBufferInternalNumber_integer:
  fixes n :: int
  shows "0 \<le> n \<Longrightarrow> n \<le> 0xFF \<Longrightarrow>
      toBufferInternalNumber fl (of_int n) w = Inr (w @ [[0x2B], [word_of_int n]])"
    and "0xFF < n \<Longrightarrow> n \<le> 0xFFFF \<Longrightarrow>
      toBufferInternalNumber fl (of_int n) w
        = Inr (w @ [[0x70], [word_of_int (n div 0x100), word_of_int n]])"
    and "0xFFFF < n \<Longrightarrow> n \<le> 0xFFFFFFFF \<Longrightarrow>
      toBufferInternalNumber fl (of_int n) w
        = Inr (w @ [[0x50], [word_of_int (n div 0x1000000), word_of_int (n div 0x10000),
                             word_of_int (n div 0x100), word_of_int n]])"
    and "n < 0 \<Longrightarrow> - 0xFF \<le> n \<Longrightarrow>
      toBufferInternalNumber fl (of_int n) w = Inr (w @ [[0x2D], [word_of_int (- n)]])"
    and "n < - 0xFF \<Longrightarrow> - 0xFFFF \<le> n \<Longrightarrow>
      toBufferInternalNumber fl (of_int n) w
        = Inr (w @ [[0x69], [word_of_int (- n div 0x100), word_of_int (- n)]])"
    and "n < - 0xFFFF \<Longrightarrow> - 0xFFFFFFFF \<le> n \<Longrightarrow>
      toBufferInternalNumber fl (of_int n) w
        = Inr (w @ [[0x49], [word_of_int (- n div 0x1000000), word_of_int (- n div 0x10000),
                             word_of_int (- n div 0x100), word_of_int (- n)]])"
proof -
  have ab: "\<bar>rat_of_int n\<bar> = of_int \<bar>n\<bar>" by simp
  show "0 \<le> n \<Longrightarrow> n \<le> 0xFF \<Longrightarrow>
      toBufferInternalNumber fl (of_int n) w = Inr (w @ [[0x2B], [word_of_int n]])"
    by (auto simp add: toBufferInternalNumber_def BufferWriter_uint8_def ab simp del: of_int_abs)
  show "0xFF < n \<Longrightarrow> n \<le> 0xFFFF \<Longrightarrow>
      toBufferInternalNumber fl (of_int n) w
        = Inr (w @ [[0x70], [word_of_int (n div 0x100), word_of_int n]])"
    by (auto simp add: toBufferInternalNumber_def BufferWriter_uint8_def BufferWriter_uint16_def
        ab simp del: of_int_abs)
  show "0xFFFF < n \<Longrightarrow> n \<le> 0xFFFFFFFF \<Longrightarrow>
      toBufferInternalNumber fl (of_int n) w
        = Inr (w @ [[0x50], [word_of_int (n div 0x1000000), word_of_int (n div 0x10000),
                             word_of_int (n div 0x100), word_of_int n]])"
    by (auto simp add: toBufferInternalNumber_def BufferWriter_uint8_def BufferWriter_uint32_def
        ab simp del: of_int_abs)
  show "n < 0 \<Longrightarrow> - 0xFF \<le> n \<Longrightarrow>
      toBufferInternalNumber fl (of_int n) w = Inr (w @ [[0x2D], [word_of_int (- n)]])"
    by (auto simp add: toBufferInternalNumber_def BufferWriter_uint8_def ab simp del: of_int_abs)
  show "n < - 0xFF \<Longrightarrow> - 0xFFFF \<le> n \<Longrightarrow>
      toBufferInternalNumber fl (of_int n) w
        = Inr (w @ [[0x69], [word_of_int (- n div 0x100), word_of_int (- n)]])"
    by (auto simp add: toBufferInternalNumber_def BufferWriter_uint8_def BufferWriter_uint16_def
        ab simp del: of_int_abs)
  show "n < - 0xFFFF \<Longrightarrow> - 0xFFFFFFFF \<le> n \<Longrightarrow>
      toBufferInternalNumber fl (of_int n) w
        = Inr (w @ [[0x49], [word_of_int (- n div 0x1000000), word_of_int (- n div 0x10000),
                             word_of_int (- n div 0x100), word_of_int (- n)]])"
    by (auto simp add: toBufferInternalNumber_def BufferWriter_uint8_def BufferWriter_uint32_def
        ab simp del: of_int_abs)
qed

lemma rat_of_nat_nat: "0 \<le> n \<Longrightarrow> (of_nat (nat n) :: rat) = of_int n"
  by simp

lemma negative_nat: "n < 0 \<Longrightarrow> negative (nat (- n)) = VNum (of_int n)"
  by (simp add: negative_def)

lemma roundTrips_integer:
  fixes n :: int
  assumes "\<bar>n\<bar> \<le> 0xFFFFFFFF"
  shows "roundTrips fl hs (VNum (of_int n))"
proof -
  consider (p8) "0 \<le> n" "n \<le> 0xFF" | (p16) "0xFF < n" "n \<le> 0xFFFF"
    | (p32) "0xFFFF < n" "n \<le> 0xFFFFFFFF" | (n8) "n < 0" "- 0xFF \<le> n"
    | (n16) "n < - 0xFF" "- 0xFFFF \<le> n" | (n32) "n < - 0xFFFF" "- 0xFFFFFFFF \<le> n"
    using assms by linarith
  then show ?thesis
  proof cases
    case p8
    have u: "unat (word_of_int n :: byte) = nat n" using unat_uint8[of n] p8 by simp
    show ?thesis
    proof (rule roundTripsI1[where segs = "[[0x2B], [word_of_int n]]"
          and bs = "[0x2B, word_of_int n]"])
      show "toBufferInternal fl hs (VNum (of_int n)) w = Inr (w @ [[0x2B], [word_of_int n]])" for w
        using toBufferInternalNumber_integer(1)[OF p8] by simp
      show "fromBufferInternal (Suc k) fl hs r
        = Some (Inr (VNum (of_int n), r\<lparr>offset := offset r + length [0x2B, word_of_int n :: byte]\<rparr>))"
        if "remaining r = [0x2B, word_of_int n] @ rest" for k r rest
        using decode_pos8[of r "word_of_int n" rest k fl hs] that p8
        by (simp add: u)
    qed simp_all
  next
    case p16
    have n0: "0 \<le> n" using p16 by simp
    note u = unat_uint16[OF n0 p16(2)]
    show ?thesis
    proof (rule roundTripsI1[where segs = "[[0x70], [word_of_int (n div 0x100), word_of_int n]]"
          and bs = "[0x70, word_of_int (n div 0x100), word_of_int n]"])
      show "toBufferInternal fl hs (VNum (of_int n)) w
          = Inr (w @ [[0x70], [word_of_int (n div 0x100), word_of_int n]])" for w
        using toBufferInternalNumber_integer(2)[OF p16] by simp
      show "fromBufferInternal (Suc k) fl hs r
        = Some (Inr (VNum (of_int n),
             r\<lparr>offset := offset r + length [0x70, word_of_int (n div 0x100), word_of_int n :: byte]\<rparr>))"
        if "remaining r = [0x70, word_of_int (n div 0x100), word_of_int n] @ rest" for k r rest
        using decode_pos16[of r "word_of_int (n div 0x100)" "word_of_int n" rest k fl hs] that n0
        by (simp only: u rat_of_nat_nat) simp
    qed simp_all
  next
    case p32
    have n0: "0 \<le> n" using p32 by simp
    note u = unat_uint32[OF n0 p32(2)]
    show ?thesis
    proof (rule roundTripsI1[where segs = "[[0x50], [word_of_int (n div 0x1000000),
            word_of_int (n div 0x10000), word_of_int (n div 0x100), word_of_int n]]"
          and bs = "[0x50, word_of_int (n div 0x1000000),
            word_of_int (n div 0x10000), word_of_int (n div 0x100), word_of_int n]"])
      show "toBufferInternal fl hs (VNum (of_int n)) w
          = Inr (w @ [[0x50], [word_of_int (n div 0x1000000),
            word_of_int (n div 0x10000), word_of_int (n div 0x100), word_of_int n]])" for w
        using toBufferInternalNumber_integer(3)[OF p32] by simp
      show "fromBufferInternal (Suc k) fl hs r
        = Some (Inr (VNum (of_int n),
             r\<lparr>offset := offset r + length [0x50, word_of_int (n div 0x1000000),
            word_of_int (n div 0x10000), word_of_int (n div 0x100), word_of_int n :: byte]\<rparr>))"
        if "remaining r = [0x50, word_of_int (n div 0x1000000),
            word_of_int (n div 0x10000), word_of_int (n div 0x100), word_of_int n] @ rest" for k r rest
        using decode_pos32[of r "word_of_int (n div 0x1000000)" "word_of_int (n div 0x10000)"
            "word_of_int (n div 0x100)" "word_of_int n" rest k fl hs] that n0
        by (simp only: u rat_of_nat_nat) simp
    qed simp_all
  next
    case n8
    have m: "0 \<le> - n" "- n \<le> 0xFF" "n < 0" using n8 by simp_all
    have u: "unat (word_of_int (- n) :: byte) = nat (- n)" using unat_uint8[OF m(1,2)] .
    show ?thesis
    proof (rule roundTripsI1[where segs = "[[0x2D], [word_of_int (- n)]]"
          and bs = "[0x2D, word_of_int (- n)]"])
      show "toBufferInternal fl hs (VNum (of_int n)) w = Inr (w @ [[0x2D], [word_of_int (- n)]])" for w
        using toBufferInternalNumber_integer(4)[OF n8] by simp
      show "fromBufferInternal (Suc k) fl hs r
        = Some (Inr (VNum (of_int n), r\<lparr>offset := offset r + length [0x2D, word_of_int (- n) :: byte]\<rparr>))"
        if "remaining r = [0x2D, word_of_int (- n)] @ rest" for k r rest
        using decode_neg8[of r "word_of_int (- n)" rest k fl hs] that
        by (simp only: u negative_nat[OF m(3)]) simp
    qed simp_all
  next
    case n16
    have m: "0 \<le> - n" "- n \<le> 0xFFFF" "n < 0" using n16 by simp_all
    note u = unat_uint16[OF m(1,2)]
    show ?thesis
    proof (rule roundTripsI1[where segs = "[[0x69], [word_of_int (- n div 0x100), word_of_int (- n)]]"
          and bs = "[0x69, word_of_int (- n div 0x100), word_of_int (- n)]"])
      show "toBufferInternal fl hs (VNum (of_int n)) w
          = Inr (w @ [[0x69], [word_of_int (- n div 0x100), word_of_int (- n)]])" for w
        using toBufferInternalNumber_integer(5)[OF n16] by simp
      show "fromBufferInternal (Suc k) fl hs r
        = Some (Inr (VNum (of_int n),
             r\<lparr>offset := offset r + length [0x69, word_of_int (- n div 0x100), word_of_int (- n) :: byte]\<rparr>))"
        if "remaining r = [0x69, word_of_int (- n div 0x100), word_of_int (- n)] @ rest" for k r rest
        using decode_neg16[of r "word_of_int (- n div 0x100)" "word_of_int (- n)" rest k fl hs] that
        by (simp only: u negative_nat[OF m(3)]) simp
    qed simp_all
  next
    case n32
    have m: "0 \<le> - n" "- n \<le> 0xFFFFFFFF" "n < 0" using n32 by simp_all
    note u = unat_uint32[OF m(1,2)]
    show ?thesis
    proof (rule roundTripsI1[where segs = "[[0x49], [word_of_int (- n div 0x1000000),
            word_of_int (- n div 0x10000), word_of_int (- n div 0x100), word_of_int (- n)]]"
          and bs = "[0x49, word_of_int (- n div 0x1000000),
            word_of_int (- n div 0x10000), word_of_int (- n div 0x100), word_of_int (- n)]"])
      show "toBufferInternal fl hs (VNum (of_int n)) w
          = Inr (w @ [[0x49], [word_of_int (- n div 0x1000000),
            word_of_int (- n div 0x10000), word_of_int (- n div 0x100), word_of_int (- n)]])" for w
        using toBufferInternalNumber_integer(6)[OF n32] by simp
      show "fromBufferInternal (Suc k) fl hs r
        = Some (Inr (VNum (of_int n),
             r\<lparr>offset := offset r + length [0x49, word_of_int (- n div 0x1000000),
            word_of_int (- n div 0x10000), word_of_int (- n div 0x100), word_of_int (- n) :: byte]\<rparr>))"
        if "remaining r = [0x49, word_of_int (- n div 0x1000000),
            word_of_int (- n div 0x10000), word_of_int (- n div 0x100), word_of_int (- n)] @ rest" for k r rest
        using decode_neg32[of r "word_of_int (- n div 0x1000000)" "word_of_int (- n div 0x10000)"
            "word_of_int (- n div 0x100)" "word_of_int (- n)" rest k fl hs] that
        by (simp only: u negative_nat[OF m(3)]) simp
    qed simp_all
  qed
qed

subsection \<open>Round trips of the other leaves\<close>

lemma decode_double:
  assumes len: "length bs = 8" and rem: "remaining r = 0x64 # bs @ rest"
  shows "fromBufferInternal (Suc n) fl hs r
    = Some (Inr (number (bitsDouble fl (word_rcat bs)), r\<lparr>offset := offset r + 9\<rparr>))"
proof -
  let ?r1 = "r\<lparr>offset := offset r + 1\<rparr>"
  have 1: "remaining ?r1 = bs @ rest" using remaining_advance1[OF rem] .
  have ne: "bs \<noteq> []" using len by auto
  have b: "offset ?r1 + 8 \<le> length (readBuffer ?r1)"
    using remaining_bounds[OF 1 ne] len by simp
  have t: "slice (readBuffer ?r1) (offset ?r1) (offset ?r1 + 8) = bs"
    using remaining_take[OF 1] len by simp
  have d: "BufferReader_double fl ?r1
      = Inr (bitsDouble fl (word_rcat bs), ?r1\<lparr>offset := offset ?r1 + 8\<rparr>)"
    unfolding BufferReader_double_def using b t by simp
  show ?thesis
    using uint8_remaining[OF rem] d
    by (simp add: fromBufferInternal.simps)
qed

lemma toBufferInternalNumber_double:
  assumes "of_int \<lfloor>x\<rfloor> \<noteq> x \<or> 0xFFFFFFFF < \<bar>x\<bar>"
  shows "toBufferInternalNumber fl x w
    = Inr (w @ [[0x64], map (\<lambda>i. ucast (drop_bit (8 * i) (doubleBits fl (Finite x))))
                          [7, 6, 5, 4, 3, 2, 1, 0]])"
  using assms
  by (auto simp add: toBufferInternalNumber_def BufferWriter_uint8_def BufferWriter_double_def)

lemma roundTrips_double:
  assumes x: "of_int \<lfloor>x\<rfloor> \<noteq> x \<or> 0xFFFFFFFF < \<bar>x\<bar>"
    and fl: "bitsDouble fl (doubleBits fl (Finite x)) = Finite x"
  shows "roundTrips fl hs (VNum x)"
proof -
  define B :: Buffer where
    "B = map (\<lambda>i. ucast (drop_bit (8 * i) (doubleBits fl (Finite x)))) [7, 6, 5, 4, 3, 2, 1, 0]"
  have len: "length B = 8" by (simp add: B_def)
  have cat: "word_rcat B = doubleBits fl (Finite x)" unfolding B_def by (rule word_rcat_bytes)
  show ?thesis
  proof (rule roundTripsI1[where segs = "[[0x64], B]" and bs = "0x64 # B"])
    show "toBufferInternal fl hs (VNum x) w = Inr (w @ [[0x64], B])" for w
      using toBufferInternalNumber_double[OF x] by (simp add: B_def)
    show "fromBufferInternal (Suc n) fl hs r
        = Some (Inr (VNum x, r\<lparr>offset := offset r + length (0x64 # B)\<rparr>))"
      if "remaining r = (0x64 # B) @ rest" for n r rest
      using decode_double[OF len, of r rest n fl hs] that
      by (simp add: cat fl len number_def)
  qed simp_all
qed

lemma roundTrips_special:
  assumes s: "s \<noteq> NegativeZero"
    and fl: "bitsDouble fl (doubleBits fl (Special s)) = Special s"
  shows "roundTrips fl hs (VSpecial s)"
proof -
  define B :: Buffer where
    "B = map (\<lambda>i. ucast (drop_bit (8 * i) (doubleBits fl (Special s)))) [7, 6, 5, 4, 3, 2, 1, 0]"
  have len: "length B = 8" by (simp add: B_def)
  have cat: "word_rcat B = doubleBits fl (Special s)" unfolding B_def by (rule word_rcat_bytes)
  show ?thesis
  proof (rule roundTripsI1[where segs = "[[0x64], B]" and bs = "0x64 # B"])
    show "toBufferInternal fl hs (VSpecial s) w = Inr (w @ [[0x64], B])" for w
      using s
      by (simp add: toBufferInternalNumber_special_def BufferWriter_uint8_def
          BufferWriter_double_def B_def)
    show "fromBufferInternal (Suc n) fl hs r
        = Some (Inr (VSpecial s, r\<lparr>offset := offset r + length (0x64 # B)\<rparr>))"
      if "remaining r = (0x64 # B) @ rest" for n r rest
      using decode_double[OF len, of r rest n fl hs] that
      by (simp add: cat fl len number_def)
  qed simp_all
qed

lemma roundTrips_string:
  assumes l: "latin1 s" and len: "length s < 0x1FFFFFFF"
  shows "roundTrips fl hs (VStr s)"
proof -
  let ?b = "map ucast s :: Buffer"
  have lb: "length ?b < 0x1FFFFFFF" using len by simp
  have inv: "map ucast ?b = s" using l latin1_roundtrip[of s] by simp
  show ?thesis
  proof (rule roundTripsI1[where segs = "[[0x73], sizeBytes (length s), ?b]"
        and bs = "[0x73] @ sizeBytes (length s) @ ?b"])
    show "toBufferInternal fl hs (VStr s) w = Inr (w @ [[0x73], sizeBytes (length s), ?b])" for w
      using toBufferInternalString_segments[OF len] by simp
    show "fromBufferInternal (Suc n) fl hs r
        = Some (Inr (VStr s, r\<lparr>offset := offset r + length ([0x73] @ sizeBytes (length s) @ ?b)\<rparr>))"
      if "remaining r = ([0x73] @ sizeBytes (length s) @ ?b) @ rest" for n r rest
      using decode_string[OF lb, of r rest n fl hs, unfolded inv] that
      by simp
  qed simp_all
qed

lemma helpers_unclaimed:
  "unclaimed hs v \<Longrightarrow> toBufferInternalObject_helpers hs v w = None"
  by (simp add: helpers_find unclaimed_def)

lemma toBufferInternalObjectBuffer_segments:
  "length b < 0x1FFFFFFF \<Longrightarrow>
   toBufferInternalObjectBuffer b w = Inr (w @ [[0x42], sizeBytes (length b), b])"
  by (simp add: toBufferInternalObjectBuffer_def BufferWriter_uint8_def sizeBytes(1)
      BufferWriter_buffer_def)

lemma roundTrips_buffer:
  assumes u: "unclaimed hs (VBuffer b)" and len: "length b < 0x1FFFFFFF"
  shows "roundTrips fl hs (VBuffer b)"
proof (rule roundTripsI1[where segs = "[[0x42], sizeBytes (length b), b]"
      and bs = "[0x42] @ sizeBytes (length b) @ b"])
  show "toBufferInternal fl hs (VBuffer b) w = Inr (w @ [[0x42], sizeBytes (length b), b])" for w
    using toBufferInternalObjectBuffer_segments[OF len] helpers_unclaimed[OF u] by simp
  show "fromBufferInternal (Suc n) fl hs r
      = Some (Inr (VBuffer b, r\<lparr>offset := offset r + length ([0x42] @ sizeBytes (length b) @ b)\<rparr>))"
    if "remaining r = ([0x42] @ sizeBytes (length b) @ b) @ rest" for n r rest
    using decode_buffer[OF len, of r rest n fl hs] that by simp
qed simp_all

lemma roundTrips_date:
  assumes u: "unclaimed hs (VDate t)" and t: "0 \<le> t" "t < 2 ^ 32 * 1000"
  shows "roundTrips fl hs (VDate t)"
proof -
  define s where "s = t div 1000"
  define m where "m = t mod 1000"
  have s: "0 \<le> s" "s \<le> 0xFFFFFFFF" using t by (simp_all add: s_def)
  have m: "0 \<le> m" "m \<le> 0xFFFF" using pos_mod_bound[of 1000 t] by (simp_all add: m_def)
  have whole: "int (nat s * 1000 + nat m) = t"
    using s m by (simp add: s_def m_def)
  let ?S = "[word_of_int (s div 0x1000000), word_of_int (s div 0x10000),
             word_of_int (s div 0x100), word_of_int s] :: Buffer"
  let ?M = "[word_of_int (m div 0x100), word_of_int m] :: Buffer"
  have e: "toBufferInternal fl hs (VDate t) w
      = Inr (w @ (if m \<noteq> 0 then [[0x44], ?S, ?M] else [[0x54], ?S]))" for w
    using toBufferInternalObjectDate_segments[OF t, of w] helpers_unclaimed[OF u]
    by (simp add: s_def[symmetric] m_def[symmetric])
  show ?thesis
  proof (cases "m = 0")
    case False
    show ?thesis
    proof (rule roundTripsI1[where segs = "[[0x44], ?S, ?M]" and bs = "[0x44] @ ?S @ ?M"])
      show "toBufferInternal fl hs (VDate t) w = Inr (w @ [[0x44], ?S, ?M])" for w
        using e[of w] False by simp
      show "fromBufferInternal (Suc n) fl hs r
          = Some (Inr (VDate t, r\<lparr>offset := offset r + length ([0x44] @ ?S @ ?M)\<rparr>))"
        if "remaining r = ([0x44] @ ?S @ ?M) @ rest" for n r rest
      proof -
        have r: "remaining r = 0x44 # word_of_int (s div 0x1000000) # word_of_int (s div 0x10000)
            # word_of_int (s div 0x100) # word_of_int s
            # word_of_int (m div 0x100) # word_of_int m # rest"
          using that by simp
        have l: "length ([0x44] @ ?S @ ?M) = 7" by simp
        show ?thesis
          unfolding l
          using decode_dateD[OF r, of n fl hs]
          by (unfold unat_uint32[OF s] unat_uint16[OF m] whole)
      qed
    qed simp_all
  next
    case True
    have whole0: "int (nat s * 1000) = t" using whole True by simp
    show ?thesis
    proof (rule roundTripsI1[where segs = "[[0x54], ?S]" and bs = "[0x54] @ ?S"])
      show "toBufferInternal fl hs (VDate t) w = Inr (w @ [[0x54], ?S])" for w
        using e[of w] True by simp
      show "fromBufferInternal (Suc n) fl hs r
          = Some (Inr (VDate t, r\<lparr>offset := offset r + length ([0x54] @ ?S)\<rparr>))"
        if "remaining r = ([0x54] @ ?S) @ rest" for n r rest
      proof -
        have r: "remaining r = 0x54 # word_of_int (s div 0x1000000) # word_of_int (s div 0x10000)
            # word_of_int (s div 0x100) # word_of_int s # rest"
          using that by simp
        have l: "length ([0x54] @ ?S) = 5" by simp
        show ?thesis
          unfolding l
          using decode_dateT[OF r, of n fl hs]
          by (unfold unat_uint32[OF s] whole0)
      qed
    qed simp_all
  qed
qed

lemma flagsByte_bits:
  "(unat (flagsByte g i m) AND 0x01 \<noteq> 0) = g"
  "(unat (flagsByte g i m) AND 0x02 \<noteq> 0) = i"
  "(unat (flagsByte g i m) AND 0x04 \<noteq> 0) = m"
  by (cases g; cases i; cases m; simp add: flagsByte_def)+

lemma toBufferInternalObjectRegExp_segments:
  "length s < 0x1FFFFFFF \<Longrightarrow>
   toBufferInternalObjectRegExp s g i m w
     = Inr (w @ [[0x52], sizeBytes (length s), map ucast s, [flagsByte g i m]])"
  by (simp add: toBufferInternalObjectRegExp_def BufferWriter_uint8_def sizeBytes(1)
      BufferWriter_string_def flagsByte_def)

lemma decode_regexp:
  fixes s :: Buffer
  assumes len: "length s < 0x1FFFFFFF"
    and rem: "remaining r = [0x52] @ sizeBytes (length s) @ s @ [f] @ rest"
    and src: "regExpSource fl (map ucast s) = Some p"
  shows "fromBufferInternal (Suc n) fl hs r
          = Some (Inr (VRegExp p (unat f AND 0x01 \<noteq> 0) (unat f AND 0x02 \<noteq> 0)
                         (unat f AND 0x04 \<noteq> 0),
                       r\<lparr>offset := offset r + (1 + length (sizeBytes (length s)) + length s + 1)\<rparr>))"
proof -
  let ?sz = "sizeBytes (length s)"
  let ?r1 = "r\<lparr>offset := offset r + 1\<rparr>"
  let ?r2 = "?r1\<lparr>offset := offset ?r1 + length ?sz\<rparr>"
  let ?r3 = "?r2\<lparr>offset := offset ?r2 + length s\<rparr>"
  have 0: "remaining r = 0x52 # (?sz @ s @ [f] @ rest)" using rem by simp
  have 1: "remaining ?r1 = ?sz @ (s @ [f] @ rest)"
    using remaining_advance1[OF 0] .
  have 2: "remaining ?r2 = s @ ([f] @ rest)"
    using remaining_advance[OF 1] .
  have 3: "BufferReader_string (length s) ?r2 = (map ucast s, ?r3)"
    using string_remaining[OF 2] by simp
  have 4: "remaining ?r3 = f # rest"
    using remaining_advance[OF 2] by simp
  show ?thesis
    using uint8_remaining[OF 0] sizeBytes(4)[OF len 1] 3 uint8_remaining[OF 4] src
    by (simp add: fromBufferInternal.simps fromBufferInternalObjectRegExp_def add.assoc)
qed

lemma roundTrips_regexp:
  assumes u: "unclaimed hs (VRegExp s g i m)" and l: "latin1 s" and len: "length s < 0x1FFFFFFF"
    and re: "regExpSource fl s = Some s"
  shows "roundTrips fl hs (VRegExp s g i m)"
proof -
  let ?b = "map ucast s :: Buffer"
  have lb: "length ?b < 0x1FFFFFFF" using len by simp
  have inv: "map ucast ?b = s" using l latin1_roundtrip[of s] by simp
  have src: "regExpSource fl (map ucast ?b) = Some s" unfolding inv by (rule re)
  show ?thesis
  proof (rule roundTripsI1[where segs = "[[0x52], sizeBytes (length s), ?b, [flagsByte g i m]]"
        and bs = "[0x52] @ sizeBytes (length s) @ ?b @ [flagsByte g i m]"])
    show "toBufferInternal fl hs (VRegExp s g i m) w
        = Inr (w @ [[0x52], sizeBytes (length s), ?b, [flagsByte g i m]])" for w
      using toBufferInternalObjectRegExp_segments[OF len] helpers_unclaimed[OF u] by simp
    show "fromBufferInternal (Suc n) fl hs r
        = Some (Inr (VRegExp s g i m,
            r\<lparr>offset := offset r + length ([0x52] @ sizeBytes (length s) @ ?b @ [flagsByte g i m])\<rparr>))"
      if "remaining r = ([0x52] @ sizeBytes (length s) @ ?b @ [flagsByte g i m]) @ rest" for n r rest
      using decode_regexp[OF lb _ src, of r "flagsByte g i m" rest n hs, unfolded flagsByte_bits]
        that
      by simp
  qed simp_all
qed

lemma toBufferInternal_helper:
  assumes "reachesHelpers v" "find (\<lambda>h. checkFn h v) hs = Some h"
  shows "toBufferInternal fl hs v w
    = andThen (BufferWriter_size (int (length (name h))) (w @ [[0x5A]]))
        (\<lambda>w1. toBufferFn h v (w1 @ [map ucast (name h)]))"
  using assms
  by (cases v) (simp_all add: reachesHelpers_def helpers_find
      del: toBufferInternalArray.simps toBufferInternalObjectGeneric.simps)

lemma decode_helper:
  fixes nm :: Buffer
  assumes len: "length nm < 0x1FFFFFFF"
    and rem: "remaining r = [0x5A] @ sizeBytes (length nm) @ nm @ rest"
  shows "fromBufferInternal (Suc n) fl hs r
          = Some (fromBufferInternalObjectHelper_scan hs (map ucast nm)
                    (r\<lparr>offset := offset r + (1 + length (sizeBytes (length nm)) + length nm)\<rparr>))"
proof -
  let ?sz = "sizeBytes (length nm)"
  let ?r1 = "r\<lparr>offset := offset r + 1\<rparr>"
  let ?r2 = "?r1\<lparr>offset := offset ?r1 + length ?sz\<rparr>"
  have 0: "remaining r = 0x5A # (?sz @ nm @ rest)" using rem by simp
  have 1: "remaining ?r1 = ?sz @ (nm @ rest)"
    using remaining_advance1[OF 0] .
  have 2: "remaining ?r2 = nm @ rest"
    using remaining_advance[OF 1] .
  have 3: "BufferReader_string (length nm) ?r2
      = (map ucast nm, ?r2\<lparr>offset := offset ?r2 + length nm\<rparr>)"
    using string_remaining[OF 2] by simp
  show ?thesis
    using uint8_remaining[OF 0] sizeBytes(4)[OF len 1] 3
    by (simp add: fromBufferInternal.simps fromBufferInternalObjectHelper_def add.assoc)
qed

lemma roundTrips_extension:
  assumes v: "reachesHelpers v" and h: "find (\<lambda>h. checkFn h v) hs = Some h"
    and c: "helperCodec hs h v"
  shows "roundTrips fl hs v"
proof -
  let ?nm = "map ucast (name h) :: Buffer"
  from c obtain payload where l: "latin1 (name h)" and len: "length (name h) < 0x1FFFFFFF"
    and enc: "\<And>w. toBufferFn h v w = Inr (w @ payload)"
    and dec: "\<And>r rest. remaining r = concat payload @ rest \<Longrightarrow>
        fromBufferInternalObjectHelper_scan hs (name h) r
          = Inr (v, r\<lparr>offset := offset r + length (concat payload)\<rparr>)"
    unfolding helperCodec_def by blast
  have lb: "length ?nm < 0x1FFFFFFF" using len by simp
  have inv: "map ucast ?nm = name h" using l latin1_roundtrip[of "name h"] by simp
  show ?thesis
  proof (rule roundTripsI1[where segs = "[[0x5A], sizeBytes (length (name h)), ?nm] @ payload"
        and bs = "[0x5A] @ sizeBytes (length (name h)) @ ?nm @ concat payload"])
    show "toBufferInternal fl hs v w
        = Inr (w @ [[0x5A], sizeBytes (length (name h)), ?nm] @ payload)" for w
      unfolding toBufferInternal_helper[OF v h]
      by (simp add: sizeBytes(1)[OF len] enc)
    show "fromBufferInternal (Suc n) fl hs r
        = Some (Inr (v,
            r\<lparr>offset := offset r + length ([0x5A] @ sizeBytes (length (name h)) @ ?nm @ concat payload)\<rparr>))"
      if rem: "remaining r = ([0x5A] @ sizeBytes (length (name h)) @ ?nm @ concat payload) @ rest"
      for n r rest
    proof -
      let ?k = "1 + length (sizeBytes (length ?nm)) + length ?nm"
      have r0: "remaining r = [0x5A] @ sizeBytes (length ?nm) @ ?nm @ (concat payload @ rest)"
        using rem by simp
      have r1: "remaining r = ([0x5A] @ sizeBytes (length ?nm) @ ?nm) @ (concat payload @ rest)"
        using rem by simp
      have r2: "remaining (r\<lparr>offset := offset r + ?k\<rparr>) = concat payload @ rest"
        by (rule remaining_advance_k[OF r1]) simp
      show ?thesis
        unfolding decode_helper[OF lb r0, of n fl hs] inv dec[OF r2]
        by (simp add: add.assoc)
    qed
  qed simp_all
qed

subsection \<open>The loops of the containers\<close>

lemma fuel_Suc: "Suc N \<le> n \<Longrightarrow> \<exists>m. n = Suc m \<and> N \<le> m"
  by (cases n) simp_all

lemma andThenF_Some_Inr [simp]: "andThenF (Some (Inr x)) f = f x"
  by (simp add: andThenF_def)

lemma toBufferInternalKey_keyValue:
  "toBufferInternalKey fl hs k w = toBufferInternal fl hs (keyValue k) w"
  by (simp add: keyValue_def)

lemma pairSegments_Cons:
  "pairSegments fl hs ((k, v) # ps)
     = segments fl hs (keyValue k) @ segments fl hs v @ pairSegments fl hs ps"
  by (simp add: pairSegments_def)

lemma pairSegments_Nil: "pairSegments fl hs [] = []"
  by (simp add: pairSegments_def)

lemma pairs_segments:
  assumes "\<And>k v. (k, v) \<in> set ps \<Longrightarrow> roundTrips fl hs (keyValue k) \<and> roundTrips fl hs v"
  shows "toBufferInternal_pairs fl hs ps w = Inr (w @ pairSegments fl hs ps)"
  using assms
proof (induction ps arbitrary: w)
  case Nil
  show ?case by (simp add: pairSegments_Nil)
next
  case (Cons p ps)
  obtain k v where p: "p = (k, v)" by (cases p)
  have kv: "roundTrips fl hs (keyValue k)" "roundTrips fl hs v"
    using Cons.prems[of k v] p by simp_all
  have ih: "toBufferInternal_pairs fl hs ps w' = Inr (w' @ pairSegments fl hs ps)" for w'
    by (rule Cons.IH) (use Cons.prems in auto)
  show ?case
    unfolding p toBufferInternal_pairs.simps toBufferInternalKey_keyValue
      roundTrips_encode[OF kv(1)] roundTrips_encode[OF kv(2)] andThen_Inr ih pairSegments_Cons
    by simp
qed

lemma values_segments:
  assumes "\<And>v. v \<in> set vs \<Longrightarrow> roundTrips fl hs v"
  shows "toBufferInternalArray_values fl hs (map Some vs) w
    = Inr (w @ concat (map (segments fl hs) vs))"
  using assms
proof (induction vs arbitrary: w)
  case Nil
  show ?case by simp
next
  case (Cons v vs)
  have v: "roundTrips fl hs v" using Cons.prems by simp
  have ih: "toBufferInternalArray_values fl hs (map Some vs) w'
      = Inr (w' @ concat (map (segments fl hs) vs))" for w'
    by (rule Cons.IH) (use Cons.prems in auto)
  show ?case
    using roundTrips_encode[OF v] ih
    by (simp del: toBufferInternal.simps)
qed

lemma peek_bytes:
  assumes "bs \<noteq> []" "remaining r = bs @ rest"
  shows "BufferReader_peek r = Inr (hd bs)"
proof -
  obtain b bs' where "bs = b # bs'" using assms(1) by (cases bs) simp_all
  then show ?thesis using peek_remaining[of r b "bs' @ rest"] assms(2) by simp
qed

lemma skip_offset: "BufferReader_skip r = r\<lparr>offset := offset r + 1\<rparr>"
  by (simp add: BufferReader_skip_def)

lemma dense_loop:
  assumes "\<And>v. v \<in> set vs \<Longrightarrow> roundTrips fl hs v"
  shows "\<exists>N. \<forall>n\<ge>N. \<forall>r rest acc.
      remaining r = concat (map (bytes fl hs) vs) @ 0x21 # rest \<longrightarrow>
      fromBufferInternalArrayDense n fl hs r acc
        = Some (Inr (VArray (acc @ map Some vs) [],
             r\<lparr>offset := offset r + (length (concat (map (bytes fl hs) vs)) + 1)\<rparr>))"
  using assms
proof (induction vs)
  case Nil
  show ?case
  proof (intro exI[of _ "Suc 0"] allI impI)
    fix n r rest acc
    assume n: "Suc 0 \<le> n"
      and r: "remaining r = concat (map (bytes fl hs) []) @ 0x21 # rest"
    obtain m where m: "n = Suc m" using fuel_Suc[OF n] by blast
    have r0: "remaining r = 0x21 # rest" using r by simp
    show "fromBufferInternalArrayDense n fl hs r acc
        = Some (Inr (VArray (acc @ map Some []) [],
             r\<lparr>offset := offset r + (length (concat (map (bytes fl hs) [])) + 1)\<rparr>))"
      unfolding m fromBufferInternalArrayDense.simps peek_remaining[OF r0] skip_offset
      by simp
  qed
next
  case (Cons v vs)
  have v: "roundTrips fl hs v" using Cons.prems by simp
  obtain N1 where N1: "\<And>n r rest. N1 \<le> n \<Longrightarrow> remaining r = bytes fl hs v @ rest \<Longrightarrow>
       fromBufferInternal n fl hs r
         = Some (Inr (v, r\<lparr>offset := offset r + length (bytes fl hs v)\<rparr>))"
    using roundTrips_decode[OF v] by blast
  obtain N2 where N2: "\<And>n r rest acc. N2 \<le> n \<Longrightarrow>
      remaining r = concat (map (bytes fl hs) vs) @ 0x21 # rest \<Longrightarrow>
      fromBufferInternalArrayDense n fl hs r acc
        = Some (Inr (VArray (acc @ map Some vs) [],
             r\<lparr>offset := offset r + (length (concat (map (bytes fl hs) vs)) + 1)\<rparr>))"
    using Cons.IH Cons.prems by (meson list.set_intros(2))
  note b = roundTrips_bytes[OF v]
  have "fromBufferInternalArrayDense n fl hs r acc
        = Some (Inr (VArray (acc @ map Some (v # vs)) [],
             r\<lparr>offset := offset r + (length (concat (map (bytes fl hs) (v # vs))) + 1)\<rparr>))"
    if n: "Suc (max N1 N2) \<le> n"
      and r: "remaining r = concat (map (bytes fl hs) (v # vs)) @ 0x21 # rest"
    for n r rest acc
  proof -
    obtain m where m: "n = Suc m" "N1 \<le> m" "N2 \<le> m"
      using fuel_Suc[OF n] by auto
    let ?r1 = "r\<lparr>offset := offset r + length (bytes fl hs v)\<rparr>"
    have r0: "remaining r = bytes fl hs v @ (concat (map (bytes fl hs) vs) @ 0x21 # rest)"
      using r by simp
    have r1: "remaining ?r1 = concat (map (bytes fl hs) vs) @ 0x21 # rest"
      using remaining_advance[OF r0] .
    have p: "BufferReader_peek r = Inr (hd (bytes fl hs v))"
      using peek_bytes[OF _ r0] b by simp
    show ?thesis
      unfolding m(1) fromBufferInternalArrayDense.simps p N1[OF m(2) r0]
      using b N2[OF m(3) r1] by (simp add: add.assoc)
  qed
  then show ?case by blast
qed

lemma sparse_loop:
  assumes "\<And>k v. (k, v) \<in> set ps \<Longrightarrow> roundTrips fl hs (keyValue k) \<and> roundTrips fl hs v"
  shows "\<exists>N. \<forall>n\<ge>N. \<forall>r rest res res'.
      remaining r = concat (pairSegments fl hs ps) @ rest \<longrightarrow>
      setArrayProperties ps res = Inr res' \<longrightarrow>
      fromBufferInternalArraySparse (n + length ps) fl hs r res
        = fromBufferInternalArraySparse n fl hs
            (r\<lparr>offset := offset r + length (concat (pairSegments fl hs ps))\<rparr>) res'"
  using assms
proof (induction ps)
  case Nil
  show ?case by (simp add: pairSegments_Nil)
next
  case (Cons p ps)
  obtain k v where p: "p = (k, v)" by (cases p)
  have kv: "roundTrips fl hs (keyValue k)" "roundTrips fl hs v"
    using Cons.prems[of k v] p by simp_all
  obtain N1 where N1: "\<And>n r rest. N1 \<le> n \<Longrightarrow> remaining r = bytes fl hs (keyValue k) @ rest \<Longrightarrow>
       fromBufferInternal n fl hs r
         = Some (Inr (keyValue k, r\<lparr>offset := offset r + length (bytes fl hs (keyValue k))\<rparr>))"
    using roundTrips_decode[OF kv(1)] by blast
  obtain N2 where N2: "\<And>n r rest. N2 \<le> n \<Longrightarrow> remaining r = bytes fl hs v @ rest \<Longrightarrow>
       fromBufferInternal n fl hs r
         = Some (Inr (v, r\<lparr>offset := offset r + length (bytes fl hs v)\<rparr>))"
    using roundTrips_decode[OF kv(2)] by blast
  obtain N3 where N3: "\<And>n r rest res res'. N3 \<le> n \<Longrightarrow>
      remaining r = concat (pairSegments fl hs ps) @ rest \<Longrightarrow>
      setArrayProperties ps res = Inr res' \<Longrightarrow>
      fromBufferInternalArraySparse (n + length ps) fl hs r res
        = fromBufferInternalArraySparse n fl hs
            (r\<lparr>offset := offset r + length (concat (pairSegments fl hs ps))\<rparr>) res'"
    using Cons.IH Cons.prems by (meson list.set_intros(2))
  note b = roundTrips_bytes[OF kv(1)]
  have "fromBufferInternalArraySparse (n + length (p # ps)) fl hs r res
        = fromBufferInternalArraySparse n fl hs
            (r\<lparr>offset := offset r + length (concat (pairSegments fl hs (p # ps)))\<rparr>) res'"
    if n: "max N1 (max N2 N3) \<le> n"
      and r: "remaining r = concat (pairSegments fl hs (p # ps)) @ rest"
      and s: "setArrayProperties (p # ps) res = Inr res'"
    for n r rest res res'
  proof -
    let ?m = "n + length ps"
    have m: "N1 \<le> ?m" "N2 \<le> ?m" "N3 \<le> n" using n by simp_all
    let ?kb = "bytes fl hs (keyValue k)"
    let ?vb = "bytes fl hs v"
    let ?pb = "concat (pairSegments fl hs ps)"
    let ?r1 = "r\<lparr>offset := offset r + length ?kb\<rparr>"
    let ?r2 = "?r1\<lparr>offset := offset ?r1 + length ?vb\<rparr>"
    have r0: "remaining r = ?kb @ (?vb @ ?pb @ rest)"
      using r by (simp add: p pairSegments_Cons bytes_def)
    have r1: "remaining ?r1 = ?vb @ (?pb @ rest)"
      using remaining_advance[OF r0] .
    have r2: "remaining ?r2 = ?pb @ rest"
      using remaining_advance[OF r1] .
    have pk: "BufferReader_peek r = Inr (hd ?kb)"
      using peek_bytes[OF _ r0] b by simp
    obtain res1 where s1: "setArrayProperty (keyValue k) v res = Inr res1"
      and s2: "setArrayProperties ps res1 = Inr res'"
      using s unfolding p by (cases "setArrayProperty (keyValue k) v res") simp_all
    have l: "length (concat (pairSegments fl hs (p # ps))) = length ?kb + (length ?vb + length ?pb)"
      by (simp add: p pairSegments_Cons bytes_def)
    have "fromBufferInternalArraySparse (Suc ?m) fl hs r res
        = fromBufferInternalArraySparse ?m fl hs ?r2 res1"
      unfolding fromBufferInternalArraySparse.simps pk N1[OF m(1) r0]
      using b s1 N2[OF m(2) r1] by simp
    also have "\<dots> = fromBufferInternalArraySparse n fl hs
            (?r2\<lparr>offset := offset ?r2 + length ?pb\<rparr>) res'"
      using N3[OF m(3) r2 s2] .
    finally show ?thesis unfolding l by (simp add: add.assoc)
  qed
  then show ?case by blast
qed

lemma object_loop:
  assumes "\<And>k v. (k, v) \<in> set ps \<Longrightarrow> roundTrips fl hs (keyValue k) \<and> roundTrips fl hs v"
  shows "\<exists>N. \<forall>n\<ge>N. \<forall>r rest res res'.
      remaining r = concat (pairSegments fl hs ps) @ rest \<longrightarrow>
      setObjectProperties ps res = Inr res' \<longrightarrow>
      fromBufferInternalObjectGeneric (n + length ps) fl hs r res
        = fromBufferInternalObjectGeneric n fl hs
            (r\<lparr>offset := offset r + length (concat (pairSegments fl hs ps))\<rparr>) res'"
  using assms
proof (induction ps)
  case Nil
  show ?case by (simp add: pairSegments_Nil)
next
  case (Cons p ps)
  obtain k v where p: "p = (k, v)" by (cases p)
  have kv: "roundTrips fl hs (keyValue k)" "roundTrips fl hs v"
    using Cons.prems[of k v] p by simp_all
  obtain N1 where N1: "\<And>n r rest. N1 \<le> n \<Longrightarrow> remaining r = bytes fl hs (keyValue k) @ rest \<Longrightarrow>
       fromBufferInternal n fl hs r
         = Some (Inr (keyValue k, r\<lparr>offset := offset r + length (bytes fl hs (keyValue k))\<rparr>))"
    using roundTrips_decode[OF kv(1)] by blast
  obtain N2 where N2: "\<And>n r rest. N2 \<le> n \<Longrightarrow> remaining r = bytes fl hs v @ rest \<Longrightarrow>
       fromBufferInternal n fl hs r
         = Some (Inr (v, r\<lparr>offset := offset r + length (bytes fl hs v)\<rparr>))"
    using roundTrips_decode[OF kv(2)] by blast
  obtain N3 where N3: "\<And>n r rest res res'. N3 \<le> n \<Longrightarrow>
      remaining r = concat (pairSegments fl hs ps) @ rest \<Longrightarrow>
      setObjectProperties ps res = Inr res' \<Longrightarrow>
      fromBufferInternalObjectGeneric (n + length ps) fl hs r res
        = fromBufferInternalObjectGeneric n fl hs
            (r\<lparr>offset := offset r + length (concat (pairSegments fl hs ps))\<rparr>) res'"
    using Cons.IH Cons.prems by (meson list.set_intros(2))
  note b = roundTrips_bytes[OF kv(1)]
  have "fromBufferInternalObjectGeneric (n + length (p # ps)) fl hs r res
        = fromBufferInternalObjectGeneric n fl hs
            (r\<lparr>offset := offset r + length (concat (pairSegments fl hs (p # ps)))\<rparr>) res'"
    if n: "max N1 (max N2 N3) \<le> n"
      and r: "remaining r = concat (pairSegments fl hs (p # ps)) @ rest"
      and s: "setObjectProperties (p # ps) res = Inr res'"
    for n r rest res res'
  proof -
    let ?m = "n + length ps"
    have m: "N1 \<le> ?m" "N2 \<le> ?m" "N3 \<le> n" using n by simp_all
    let ?kb = "bytes fl hs (keyValue k)"
    let ?vb = "bytes fl hs v"
    let ?pb = "concat (pairSegments fl hs ps)"
    let ?r1 = "r\<lparr>offset := offset r + length ?kb\<rparr>"
    let ?r2 = "?r1\<lparr>offset := offset ?r1 + length ?vb\<rparr>"
    have r0: "remaining r = ?kb @ (?vb @ ?pb @ rest)"
      using r by (simp add: p pairSegments_Cons bytes_def)
    have r1: "remaining ?r1 = ?vb @ (?pb @ rest)"
      using remaining_advance[OF r0] .
    have r2: "remaining ?r2 = ?pb @ rest"
      using remaining_advance[OF r1] .
    have pk: "BufferReader_peek r = Inr (hd ?kb)"
      using peek_bytes[OF _ r0] b by simp
    obtain res1 where s1: "setObjectProperty (keyValue k) v res = Inr res1"
      and s2: "setObjectProperties ps res1 = Inr res'"
      using s unfolding p by (cases "setObjectProperty (keyValue k) v res") simp_all
    have l: "length (concat (pairSegments fl hs (p # ps))) = length ?kb + (length ?vb + length ?pb)"
      by (simp add: p pairSegments_Cons bytes_def)
    have "fromBufferInternalObjectGeneric (Suc ?m) fl hs r res
        = fromBufferInternalObjectGeneric ?m fl hs ?r2 res1"
      unfolding fromBufferInternalObjectGeneric.simps pk N1[OF m(1) r0]
      using b s1 N2[OF m(2) r1] by simp
    also have "\<dots> = fromBufferInternalObjectGeneric n fl hs
            (?r2\<lparr>offset := offset ?r2 + length ?pb\<rparr>) res'"
      using N3[OF m(3) r2 s2] .
    finally show ?thesis unfolding l by (simp add: add.assoc)
  qed
  then show ?case by blast
qed

subsection \<open>Assigning the pairs back\<close>

lemma toPropertyKey_keyValue:
  assumes "keyOk k"
  shows "toPropertyKey (keyValue k) = Some k"
proof (cases "keyPattern_test k")
  case True
  then have lt: "toNumber k < 2 ^ 53" using assms by (simp add: keyOk_def)
  have "(of_nat (toNumber k) :: rat) < of_nat (2 ^ 53)"
    using lt by (simp only: of_nat_less_iff)
  then have r: "(of_nat (toNumber k) :: rat) < 2 ^ 53" by simp
  show ?thesis
    using True r by (simp add: keyValue_def toPropertyKey_def toString_toNumber)
next
  case False
  then show ?thesis by (simp add: keyValue_def toPropertyKey_def)
qed

lemma numeral_not_named:
  "keyPattern_test k \<Longrightarrow> \<not> isAccessor k \<and> \<not> isLength k"
  by (auto simp add: keyPattern_test_def isAccessor_def isLength_def)

lemma arrayIndex_toString:
  "i < 2 ^ 32 - 1 \<Longrightarrow> arrayIndex (toString i) = Some i"
  by (simp add: arrayIndex_def keyPattern_test_toString toNumber_toString)

lemma keyOk_toString: "i < 2 ^ 32 - 1 \<Longrightarrow> keyOk (toString i)"
  using numeral_not_named[OF keyPattern_test_toString[of i]]
  by (simp add: keyOk_def toNumber_toString)

lemma setArrayProperty_slot:
  assumes "i < 2 ^ 32 - 1"
  shows "setArrayProperty (keyValue (toString i)) v (cur, ps) = Inr (setSlot i v cur, ps)"
  using numeral_not_named[OF keyPattern_test_toString[of i]]
  by (simp add: setArrayProperty_def toPropertyKey_keyValue[OF keyOk_toString[OF assms]]
      arrayIndex_toString[OF assms])

lemma setArrayProperties_append:
  "setArrayProperties (ps @ qs) res = andThen (setArrayProperties ps res) (setArrayProperties qs)"
proof (induction ps arbitrary: res)
  case Nil
  show ?case by simp
next
  case (Cons p ps)
  obtain k v where p: "p = (k, v)" by (cases p)
  show ?case
    unfolding p using Cons.IH
    by (cases "setArrayProperty (keyValue k) v res") simp_all
qed

lemma setObjectProperties_append:
  "setObjectProperties (ps @ qs) res = andThen (setObjectProperties ps res) (setObjectProperties qs)"
proof (induction ps arbitrary: res)
  case Nil
  show ?case by simp
next
  case (Cons p ps)
  obtain k v where p: "p = (k, v)" by (cases p)
  show ?case
    unfolding p using Cons.IH
    by (cases "setObjectProperty (keyValue k) v res") simp_all
qed

lemma setSlot_beyond:
  "length cur \<le> i \<Longrightarrow> setSlot i v cur = cur @ replicate (i - length cur) None @ [Some v]"
  by (simp add: setSlot_def)

lemma setArrayProperties_slots:
  assumes "length cur \<le> i" "i + length sl < 2 ^ 32" "sl = [] \<or> last sl \<noteq> None"
  shows "setArrayProperties (ownSlots i sl) (cur, [])
    = Inr (if sl = [] then cur else cur @ replicate (i - length cur) None @ sl, [])"
  using assms
proof (induction sl arbitrary: i cur)
  case Nil
  show ?case by simp
next
  case (Cons s sl)
  have i: "i < 2 ^ 32 - 1" using Cons.prems(2) by simp
  have nx: "Suc i + length sl < 2 ^ 32" using Cons.prems(2) by simp
  show ?case
  proof (cases s)
    case None
    then have ne: "sl \<noteq> []" and la: "sl = [] \<or> last sl \<noteq> None"
      using Cons.prems(3) by auto
    have le: "length cur \<le> Suc i" using Cons.prems(1) by simp
    have rep: "replicate (Suc i - length cur) None @ sl
        = replicate (i - length cur) (None :: jsval option) @ None # sl"
      using Cons.prems(1) by (simp add: Suc_diff_le replicate_app_Cons_same)
    show ?thesis
      using Cons.IH[OF le nx la] ne rep by (simp add: None)
  next
    case (Some v)
    let ?cur = "cur @ replicate (i - length cur) None @ [Some v]"
    have le: "length ?cur \<le> Suc i" using Cons.prems(1) by simp
    have la: "sl = [] \<or> last sl \<noteq> None" using Cons.prems(3) by auto
    have len: "Suc i - length ?cur = 0" using Cons.prems(1) by simp
    show ?thesis
      using Cons.IH[OF le nx la]
      unfolding Some ownSlots.simps setArrayProperties.simps setArrayProperty_slot[OF i]
        setSlot_beyond[OF Cons.prems(1)] andThen_Inr len
      by simp
  qed
qed

lemma assign_fresh: "k \<notin> fst ` set acc \<Longrightarrow> assign k v acc = acc @ [(k, v)]"
  by (induction acc) auto

lemma setArrayProperties_props:
  assumes "distinct (map fst props)" "fst ` set props \<inter> fst ` set acc = {}"
    and "\<And>k v. (k, v) \<in> set props \<Longrightarrow> arrayIndex k = None \<and> \<not> isLength k \<and> keyOk k"
  shows "setArrayProperties props (slots, acc) = Inr (slots, acc @ props)"
  using assms
proof (induction props arbitrary: acc)
  case Nil
  show ?case by simp
next
  case (Cons p props)
  obtain k v where p: "p = (k, v)" by (cases p)
  have k: "arrayIndex k = None" "\<not> isLength k" "keyOk k" "\<not> isAccessor k"
    using Cons.prems(3)[of k v] p by (simp_all add: keyOk_def)
  have fresh: "k \<notin> fst ` set acc" using Cons.prems(2) p by auto
  have step: "setArrayProperty (keyValue k) v (slots, acc) = Inr (slots, acc @ [(k, v)])"
    using k by (simp add: setArrayProperty_def toPropertyKey_keyValue assign_fresh[OF fresh])
  have d: "distinct (map fst props)" using Cons.prems(1) by simp
  have dis: "fst ` set props \<inter> fst ` set (acc @ [(k, v)]) = {}"
    using Cons.prems(1,2) p by auto
  have ih: "setArrayProperties props (slots, acc @ [(k, v)]) = Inr (slots, (acc @ [(k, v)]) @ props)"
    by (rule Cons.IH[OF d dis]) (use Cons.prems(3) in auto)
  show ?case
    unfolding p setArrayProperties.simps step andThen_Inr ih by simp
qed

lemma insertIndex_last:
  "list_all (\<lambda>k'. case arrayIndex k' of Some j \<Rightarrow> j < i | None \<Rightarrow> False) (map fst acc)
   \<Longrightarrow> insertIndex i k v acc = acc @ [(k, v)]"
  by (induction acc) (auto split: option.splits)

lemma setObjectProperty_next:
  assumes "comesNext (map fst acc) k" "keyOk k"
  shows "setObjectProperty (keyValue k) v acc = Inr (acc @ [(k, v)])"
proof -
  have a: "\<not> isAccessor k" using assms(2) by (simp add: keyOk_def)
  have f: "k \<notin> set (map fst acc)" using assms(1) by (simp add: comesNext_def)
  show ?thesis
  proof (cases "arrayIndex k")
    case None
    then show ?thesis
      using a f by (simp add: setObjectProperty_def toPropertyKey_keyValue[OF assms(2)])
  next
    case (Some i)
    then have "list_all (\<lambda>k'. case arrayIndex k' of Some j \<Rightarrow> j < i | None \<Rightarrow> False) (map fst acc)"
      using assms(1) by (simp add: comesNext_def)
    then have "insertIndex i k v acc = acc @ [(k, v)]" by (rule insertIndex_last)
    then show ?thesis
      using a f Some by (simp add: setObjectProperty_def toPropertyKey_keyValue[OF assms(2)])
  qed
qed

lemma setObjectProperties_props:
  assumes "keysInOrder (map fst acc) (map fst props)"
    and "\<And>k v. (k, v) \<in> set props \<Longrightarrow> keyOk k"
  shows "setObjectProperties props acc = Inr (acc @ props)"
  using assms
proof (induction props arbitrary: acc)
  case Nil
  show ?case by simp
next
  case (Cons p props)
  obtain k v where p: "p = (k, v)" by (cases p)
  have c: "comesNext (map fst acc) k" and o: "keysInOrder (map fst (acc @ [(k, v)])) (map fst props)"
    using Cons.prems(1) p by simp_all
  have k: "keyOk k" using Cons.prems(2)[of k v] p by simp
  have ih: "setObjectProperties props (acc @ [(k, v)]) = Inr ((acc @ [(k, v)]) @ props)"
    by (rule Cons.IH[OF o]) (use Cons.prems(2) in auto)
  show ?case
    unfolding p setObjectProperties.simps setObjectProperty_next[OF c k] andThen_Inr ih by simp
qed

lemma ownSlots_set:
  "(k, v) \<in> set (ownSlots i sl) \<Longrightarrow>
   Some v \<in> set sl \<and> (\<exists>j. k = toString j \<and> i \<le> j \<and> j < i + length sl)"
proof (induction sl arbitrary: i)
  case Nil
  then show ?case by simp
next
  case (Cons s sl)
  show ?case
  proof (cases s)
    case None
    then have "(k, v) \<in> set (ownSlots (Suc i) sl)" using Cons.prems by simp
    from Cons.IH[OF this] show ?thesis by auto
  next
    case (Some u)
    then consider "k = toString i \<and> v = u" | "(k, v) \<in> set (ownSlots (Suc i) sl)"
      using Cons.prems by auto
    then show ?thesis
    proof cases
      case 1
      then show ?thesis using Some by auto
    next
      case 2
      from Cons.IH[OF this] show ?thesis by auto
    qed
  qed
qed

subsection \<open>Round trips of the containers\<close>

lemma roundTrips_defined: "roundTrips fl hs v \<Longrightarrow> v \<noteq> VUndefined"
  using roundTrips_encode[of fl hs VUndefined "[]"] by auto

lemma concat_segments: "concat (concat (map (segments fl hs) vs)) = concat (map (bytes fl hs) vs)"
  by (induction vs) (simp_all add: bytes_def)

lemma decode_dense_tag:
  "remaining r = 0x61 # rest \<Longrightarrow>
   fromBufferInternal (Suc n) fl hs r
     = fromBufferInternalArrayDense n fl hs (r\<lparr>offset := offset r + 1\<rparr>) []"
  using uint8_remaining[of r "0x61" rest] by (simp add: fromBufferInternal.simps)

lemma decode_sparse_tag:
  "remaining r = 0x41 # rest \<Longrightarrow>
   fromBufferInternal (Suc n) fl hs r
     = fromBufferInternalArraySparse n fl hs (r\<lparr>offset := offset r + 1\<rparr>) ([], [])"
  using uint8_remaining[of r "0x41" rest] by (simp add: fromBufferInternal.simps)

lemma decode_object_tag:
  "remaining r = 0x4F # rest \<Longrightarrow>
   fromBufferInternal (Suc n) fl hs r
     = fromBufferInternalObjectGeneric n fl hs (r\<lparr>offset := offset r + 1\<rparr>) []"
  using uint8_remaining[of r "0x4F" rest] by (simp add: fromBufferInternal.simps)

lemma sparse_end:
  "remaining r = 0x21 # rest \<Longrightarrow>
   fromBufferInternalArraySparse (Suc n) fl hs r res
     = Some (Inr (VArray (fst res) (snd res), r\<lparr>offset := offset r + 1\<rparr>))"
  using peek_remaining[of r "0x21" rest]
  by (simp add: fromBufferInternalArraySparse.simps skip_offset)

lemma object_end:
  "remaining r = 0x21 # rest \<Longrightarrow>
   fromBufferInternalObjectGeneric (Suc n) fl hs r res
     = Some (Inr (VObject ''Object'' res, r\<lparr>offset := offset r + 1\<rparr>))"
  using peek_remaining[of r "0x21" rest]
  by (simp add: fromBufferInternalObjectGeneric.simps skip_offset)

lemma dense_form:
  assumes "\<And>v. v \<in> set vs \<Longrightarrow> v \<noteq> VUndefined"
  shows "toBufferInternalArray fl hs (map Some vs) [] w
     = andThen (toBufferInternalArray_values fl hs (map Some vs) (w @ [[0x61]]))
         (\<lambda>w'. Inr (w' @ [[0x21]]))"
proof -
  have f: "filter isOwnSlot (map Some vs) = map Some vs"
    by (induction vs) (simp_all add: isOwnSlot_def)
  have u: "\<not> list_ex isUndefinedSlot (map Some vs)"
    using assms by (induction vs) (simp_all add: isUndefinedSlot_def)
  have c: "(length (filter isOwnSlot (map Some vs)) + length ([] :: (jsstring \<times> jsval) list)
        = length (map Some vs) \<and> \<not> list_ex isUndefinedSlot (map Some vs)) = True"
    using u by (simp add: f)
  show ?thesis
    unfolding toBufferInternalArray.simps c if_True BufferWriter_string_def by simp
qed

lemma roundTrips_dense:
  assumes vs: "\<And>v. v \<in> set vs \<Longrightarrow> roundTrips fl hs v"
  shows "roundTrips fl hs (VArray (map Some vs) [])"
proof -
  let ?vb = "concat (map (bytes fl hs) vs)"
  obtain N where N: "\<And>n r rest acc. N \<le> n \<Longrightarrow>
      remaining r = ?vb @ 0x21 # rest \<Longrightarrow>
      fromBufferInternalArrayDense n fl hs r acc
        = Some (Inr (VArray (acc @ map Some vs) [],
             r\<lparr>offset := offset r + (length ?vb + 1)\<rparr>))"
    using dense_loop[OF vs] by blast
  show ?thesis
  proof (rule roundTripsI[where segs = "[[0x61]] @ concat (map (segments fl hs) vs) @ [[0x21]]"
        and bs = "0x61 # ?vb @ [0x21]" and N = "Suc N"])
    show "toBufferInternal fl hs (VArray (map Some vs) []) w
        = Inr (w @ [[0x61]] @ concat (map (segments fl hs) vs) @ [[0x21]])" for w
      unfolding toBufferInternal.simps
      using dense_form[of vs fl hs w] roundTrips_defined[OF vs] values_segments[OF vs]
      by simp
    show "concat ([[0x61]] @ concat (map (segments fl hs) vs) @ [[0x21]]) = 0x61 # ?vb @ [0x21]"
      by (simp add: concat_segments)
    show "fromBufferInternal n fl hs r
        = Some (Inr (VArray (map Some vs) [], r\<lparr>offset := offset r + length (0x61 # ?vb @ [0x21])\<rparr>))"
      if n: "Suc N \<le> n" and r: "remaining r = (0x61 # ?vb @ [0x21]) @ rest" for n r rest
    proof -
      obtain m where m: "n = Suc m" "N \<le> m" using fuel_Suc[OF n] by blast
      let ?r1 = "r\<lparr>offset := offset r + 1\<rparr>"
      have r0: "remaining r = 0x61 # (?vb @ 0x21 # rest)" using r by simp
      have r1: "remaining ?r1 = ?vb @ 0x21 # rest" using remaining_advance1[OF r0] .
      show ?thesis
        unfolding m(1) decode_dense_tag[OF r0] N[OF m(2) r1]
        by (simp add: add.assoc)
    qed
  qed simp_all
qed

lemma roundTrips_index: "j < 2 ^ 32 \<Longrightarrow> roundTrips fl hs (keyValue (toString j))"
  using roundTrips_integer[of "int j" fl hs]
  by (simp add: keyValue_def keyPattern_test_toString toNumber_toString)

lemma roundTrips_sparse:
  assumes form: "None \<in> set slots \<or> props \<noteq> []"
    and la: "slots = [] \<or> last slots \<noteq> None"
    and len: "length slots < 2 ^ 32"
    and vs: "\<And>v. Some v \<in> set slots \<Longrightarrow> roundTrips fl hs v"
    and di: "distinct (map fst props)"
    and ps: "\<And>k v. (k, v) \<in> set props \<Longrightarrow>
            arrayIndex k = None \<and> \<not> isLength k \<and> keyOk k
            \<and> roundTrips fl hs (keyValue k) \<and> roundTrips fl hs v"
  shows "roundTrips fl hs (VArray slots props)"
proof -
  let ?ps = "ownSlots 0 slots @ props"
  let ?pb = "concat (pairSegments fl hs ?ps)"
  have all: "roundTrips fl hs (keyValue k) \<and> roundTrips fl hs v" if "(k, v) \<in> set ?ps" for k v
  proof (cases "(k, v) \<in> set props")
    case True
    then show ?thesis using ps by blast
  next
    case False
    then have "(k, v) \<in> set (ownSlots 0 slots)" using that by simp
    from ownSlots_set[OF this] obtain j where "Some v \<in> set slots" "k = toString j" "j < length slots"
      by auto
    then show ?thesis using vs roundTrips_index[of j fl hs] len by simp
  qed
  obtain N where N: "\<And>n r rest res res'. N \<le> n \<Longrightarrow>
      remaining r = ?pb @ rest \<Longrightarrow> setArrayProperties ?ps res = Inr res' \<Longrightarrow>
      fromBufferInternalArraySparse (n + length ?ps) fl hs r res
        = fromBufferInternalArraySparse n fl hs (r\<lparr>offset := offset r + length ?pb\<rparr>) res'"
    using sparse_loop[of ?ps fl hs] all by blast
  have sl: "setArrayProperties (ownSlots 0 slots) ([], []) = Inr (slots, [])"
    using setArrayProperties_slots[of "[]" 0 slots] la len by simp
  have pr: "setArrayProperties props (slots, []) = Inr (slots, props)"
    using setArrayProperties_props[of props "[]" slots] di ps by simp
  have set: "setArrayProperties ?ps ([], []) = Inr (slots, props)"
    unfolding setArrayProperties_append sl andThen_Inr pr ..
  show ?thesis
  proof (rule roundTripsI[where segs = "[[0x41]] @ pairSegments fl hs ?ps @ [[0x21]]"
        and bs = "0x41 # ?pb @ [0x21]" and N = "Suc (Suc N + length ?ps)"])
    show "toBufferInternal fl hs (VArray slots props) w
        = Inr (w @ [[0x41]] @ pairSegments fl hs ?ps @ [[0x21]])" for w
    proof -
      have f: "None \<in> set slots \<or> Some VUndefined \<in> set slots \<or> props \<noteq> []"
        using form by blast
      have p: "toBufferInternal_pairs fl hs ?ps w' = Inr (w' @ pairSegments fl hs ?ps)" for w'
        by (rule pairs_segments) (use all in blast)
      show ?thesis
        unfolding toBufferInternal.simps sparse_form[OF f] p by simp
    qed
    show "fromBufferInternal n fl hs r
        = Some (Inr (VArray slots props, r\<lparr>offset := offset r + length (0x41 # ?pb @ [0x21])\<rparr>))"
      if n: "Suc (Suc N + length ?ps) \<le> n" and r: "remaining r = (0x41 # ?pb @ [0x21]) @ rest"
      for n r rest
    proof -
      obtain m where m: "n = Suc m" "Suc N + length ?ps \<le> m" using fuel_Suc[OF n] by blast
      define j where "j = m - length ?ps - 1"
      have mj: "m = Suc j + length ?ps" "N \<le> Suc j" using m(2) by (simp_all add: j_def)
      let ?r1 = "r\<lparr>offset := offset r + 1\<rparr>"
      let ?r2 = "?r1\<lparr>offset := offset ?r1 + length ?pb\<rparr>"
      have r0: "remaining r = 0x41 # (?pb @ 0x21 # rest)" using r by simp
      have r1: "remaining ?r1 = ?pb @ (0x21 # rest)" using remaining_advance1[OF r0] .
      have r2: "remaining ?r2 = 0x21 # rest" using remaining_advance[OF r1] .
      show ?thesis
        unfolding m(1) decode_sparse_tag[OF r0] mj(1) N[OF mj(2) r1 set] sparse_end[OF r2]
        by (simp add: add.assoc)
    qed
  qed simp_all
qed

lemma roundTrips_object:
  assumes u: "unclaimed hs (VObject ''Object'' props)"
    and or: "keysInOrder [] (map fst props)"
    and ps: "\<And>k v. (k, v) \<in> set props \<Longrightarrow>
            keyOk k \<and> roundTrips fl hs (keyValue k) \<and> roundTrips fl hs v"
  shows "roundTrips fl hs (VObject ''Object'' props)"
proof -
  let ?pb = "concat (pairSegments fl hs props)"
  have all: "roundTrips fl hs (keyValue k) \<and> roundTrips fl hs v" if "(k, v) \<in> set props" for k v
    using ps[OF that] by simp
  obtain N where N: "\<And>n r rest res res'. N \<le> n \<Longrightarrow>
      remaining r = ?pb @ rest \<Longrightarrow> setObjectProperties props res = Inr res' \<Longrightarrow>
      fromBufferInternalObjectGeneric (n + length props) fl hs r res
        = fromBufferInternalObjectGeneric n fl hs (r\<lparr>offset := offset r + length ?pb\<rparr>) res'"
    using object_loop[of props fl hs] all by blast
  have set: "setObjectProperties props [] = Inr props"
    using setObjectProperties_props[of "[]" props] or ps by simp
  show ?thesis
  proof (rule roundTripsI[where segs = "[[0x4F]] @ pairSegments fl hs props @ [[0x21]]"
        and bs = "0x4F # ?pb @ [0x21]" and N = "Suc (Suc N + length props)"])
    show "toBufferInternal fl hs (VObject ''Object'' props) w
        = Inr (w @ [[0x4F]] @ pairSegments fl hs props @ [[0x21]])" for w
    proof -
      have p: "toBufferInternal_pairs fl hs props w' = Inr (w' @ pairSegments fl hs props)" for w'
        by (rule pairs_segments) (use all in blast)
      show ?thesis
        unfolding toBufferInternal.simps toBufferInternalObject.simps helpers_unclaimed[OF u]
          option.case toBufferInternalObjectGeneric.simps BufferWriter_string_def p
        by simp
    qed
    show "fromBufferInternal n fl hs r
        = Some (Inr (VObject ''Object'' props,
             r\<lparr>offset := offset r + length (0x4F # ?pb @ [0x21])\<rparr>))"
      if n: "Suc (Suc N + length props) \<le> n" and r: "remaining r = (0x4F # ?pb @ [0x21]) @ rest"
      for n r rest
    proof -
      obtain m where m: "n = Suc m" "Suc N + length props \<le> m" using fuel_Suc[OF n] by blast
      define j where "j = m - length props - 1"
      have mj: "m = Suc j + length props" "N \<le> Suc j" using m(2) by (simp_all add: j_def)
      let ?r1 = "r\<lparr>offset := offset r + 1\<rparr>"
      let ?r2 = "?r1\<lparr>offset := offset ?r1 + length ?pb\<rparr>"
      have r0: "remaining r = 0x4F # (?pb @ 0x21 # rest)" using r by simp
      have r1: "remaining ?r1 = ?pb @ (0x21 # rest)" using remaining_advance1[OF r0] .
      have r2: "remaining ?r2 = 0x21 # rest" using remaining_advance[OF r1] .
      show ?thesis
        unfolding m(1) decode_object_tag[OF r0] mj(1) N[OF mj(2) r1 set] object_end[OF r2]
        by (simp add: add.assoc)
    qed
  qed simp_all
qed

subsection \<open>Every faithful value round-trips\<close>

lemma faithful_roundTrips: "faithful fl hs v \<Longrightarrow> roundTrips fl hs v"
proof (induction rule: faithful.induct)
  case faithful_null
  show ?case by (rule roundTrips_null)
next
  case (faithful_boolean b)
  show ?case by (rule roundTrips_boolean)
next
  case (faithful_integer n)
  then show ?case by (rule roundTrips_integer)
next
  case (faithful_double x)
  then show ?case by (rule roundTrips_double)
next
  case (faithful_special s)
  then show ?case by (rule roundTrips_special)
next
  case (faithful_string s)
  then show ?case by (rule roundTrips_string)
next
  case (faithful_buffer b)
  then show ?case by (rule roundTrips_buffer)
next
  case (faithful_date t)
  then show ?case by (rule roundTrips_date)
next
  case (faithful_regexp s g i m)
  then show ?case by (rule roundTrips_regexp)
next
  case (faithful_dense vs)
  then show ?case by (intro roundTrips_dense) blast
next
  case (faithful_sparse slots props)
  show ?case
  proof (rule roundTrips_sparse)
    show "None \<in> set slots \<or> props \<noteq> []" by (rule faithful_sparse.hyps(1))
    show "slots = [] \<or> last slots \<noteq> None" by (rule faithful_sparse.hyps(2))
    show "length slots < 2 ^ 32" by (rule faithful_sparse.hyps(3))
    show "distinct (map fst props)" by (rule faithful_sparse.hyps(5))
    show "roundTrips fl hs v" if "Some v \<in> set slots" for v
      using faithful_sparse.IH(1)[OF that] .
    show "arrayIndex k = None \<and> \<not> isLength k \<and> keyOk k
            \<and> roundTrips fl hs (keyValue k) \<and> roundTrips fl hs v"
      if "(k, v) \<in> set props" for k v
      using faithful_sparse.IH(2)[OF that] by blast
  qed
next
  case (faithful_object props)
  show ?case
  proof (rule roundTrips_object)
    show "unclaimed hs (VObject ''Object'' props)" by (rule faithful_object.hyps(1))
    show "keysInOrder [] (map fst props)" by (rule faithful_object.hyps(2))
    show "keyOk k \<and> roundTrips fl hs (keyValue k) \<and> roundTrips fl hs v"
      if "(k, v) \<in> set props" for k v
      using faithful_object.IH[OF that] by blast
  qed
next
  case (faithful_extension v h)
  then show ?case by (rule roundTrips_extension)
qed

subsection \<open>The round trip\<close>

lemma toBuffer_bytes:
  assumes "roundTrips fl hs v"
  shows "toBuffer fl hs v = Inr (0x00 # bytes fl hs v)"
  using roundTrips_encode[OF assms, of "[[0x00]]"]
  by (simp add: toBuffer_def BufferWriter_uint8_def BufferWriter_new_def BufferWriter_toBuffer_def
      bytes_def)

lemma record_decode:
  assumes "roundTrips fl hs v"
  shows "\<exists>N. \<forall>n\<ge>N.
    fromBufferInternal n fl hs (BufferReader_new (pre @ 0x00 # bytes fl hs v @ post) (length pre + 1))
      = Some (Inr (v, BufferReader_new (pre @ 0x00 # bytes fl hs v @ post)
                        (length pre + 1 + length (bytes fl hs v))))"
proof -
  obtain N where N: "\<And>n r rest. N \<le> n \<Longrightarrow> remaining r = bytes fl hs v @ rest \<Longrightarrow>
       fromBufferInternal n fl hs r
         = Some (Inr (v, r\<lparr>offset := offset r + length (bytes fl hs v)\<rparr>))"
    using roundTrips_decode[OF assms] by blast
  let ?r = "BufferReader_new (pre @ 0x00 # bytes fl hs v @ post) (length pre + 1)"
  have "remaining (BufferReader_new ((pre @ [0x00]) @ (bytes fl hs v @ post)) (length (pre @ [0x00])))
      = bytes fl hs v @ post"
    by (rule remaining_new)
  then have r: "remaining ?r = bytes fl hs v @ post" by simp
  have "fromBufferInternal n fl hs ?r
      = Some (Inr (v, BufferReader_new (pre @ 0x00 # bytes fl hs v @ post)
                        (length pre + 1 + length (bytes fl hs v))))" if "N \<le> n" for n
    using N[OF that r] by (simp add: BufferReader_new_def)
  then show ?thesis by blast
qed


text \<open>
  The negative zero is a number that is not restored either: it is written as the 8-bit
  integer 0 and read back as 0.
\<close>

lemma negative_zero_read_back_as_zero:
  "toBuffer fl hs (VSpecial NegativeZero) = Inr [0x00, 0x2B, 0x00]
   \<and> fromBuffer (Suc n) fl hs [0x00, 0x2B, 0x00] 0 = Some (Inr (VNum 0))"
  by (simp add: toBuffer_def toBufferInternalNumber_special_def writer_defs fromBuffer_def
      reader_defs fromBufferInternal.simps)



subsection \<open>The cursor moves on\<close>

lemma andThen_Inr_iff: "(andThen m f = Inr y) = (\<exists>x. m = Inr x \<and> f x = Inr y)"
  by (cases m) simp_all

lemma andThenF_Some_Inr_iff:
  "(andThenF m f = Some (Inr y)) = (\<exists>x. m = Some (Inr x) \<and> f x = Some (Inr y))"
  by (cases m) (auto simp add: andThenF_def split: sum.splits)

lemma andThenF_Some_InrE:
  assumes "andThenF m f = Some (Inr y)"
  obtains x where "m = Some (Inr x)" "f x = Some (Inr y)"
  using assms by (auto simp add: andThenF_Some_Inr_iff)

lemma uint8_advances:
  "BufferReader_uint8 r = Inr (x, r') \<Longrightarrow> readBuffer r' = readBuffer r \<and> offset r' = offset r + 1"
  by (auto simp add: BufferReader_uint8_def split: if_splits)

lemma uint16_advances:
  "BufferReader_uint16 r = Inr (x, r') \<Longrightarrow> readBuffer r' = readBuffer r \<and> offset r' = offset r + 2"
  by (auto simp add: BufferReader_uint16_def split: if_splits)

lemma uint32_advances:
  "BufferReader_uint32 r = Inr (x, r') \<Longrightarrow> readBuffer r' = readBuffer r \<and> offset r' = offset r + 4"
  by (auto simp add: BufferReader_uint32_def split: if_splits)

lemma double_advances:
  "BufferReader_double fl r = Inr (x, r') \<Longrightarrow> readBuffer r' = readBuffer r \<and> offset r' = offset r + 8"
  by (auto simp add: BufferReader_double_def split: if_splits)

lemma size_advances:
  "BufferReader_size r = Inr (x, r') \<Longrightarrow> readBuffer r' = readBuffer r \<and> offset r < offset r'"
  by (auto simp add: BufferReader_size_def split: sum.splits if_splits
      dest!: uint8_advances uint16_advances uint32_advances)

lemma string_advances:
  "BufferReader_string len r = (s, r') \<Longrightarrow> readBuffer r' = readBuffer r \<and> offset r \<le> offset r'"
  by (auto simp add: BufferReader_string_def)

lemma buffer_advances:
  "BufferReader_buffer len r = (s, r') \<Longrightarrow> readBuffer r' = readBuffer r \<and> offset r \<le> offset r'"
  by (auto simp add: BufferReader_buffer_def)

lemma scan_advances:
  assumes "helpersAdvance hs" "fromBufferInternalObjectHelper_scan hs nm r = Inr (v, r')"
  shows "readBuffer r' = readBuffer r \<and> offset r \<le> offset r'"
  using assms
proof (induction hs)
  case Nil
  then show ?case by simp
next
  case (Cons h hs)
  have hs: "helpersAdvance hs" using Cons.prems(1) by (simp add: helpersAdvance_def)
  show ?case
  proof (cases "name h = nm")
    case True
    then have "fromBufferFn h r = Inr (v, r')" using Cons.prems(2) by simp
    then show ?thesis using Cons.prems(1) by (auto simp add: helpersAdvance_def advances_def)
  next
    case False
    then show ?thesis using Cons.IH[OF hs] Cons.prems(2) by simp
  qed
qed

lemma helper_advances:
  assumes "helpersAdvance hs" "fromBufferInternalObjectHelper hs r = Inr (v, r')"
  shows "readBuffer r' = readBuffer r \<and> offset r < offset r'"
proof -
  from assms(2) obtain len r1 where 1: "BufferReader_size r = Inr (len, r1)"
    and c: "(case BufferReader_string len r1 of
               (nm, r2) \<Rightarrow> fromBufferInternalObjectHelper_scan hs nm r2) = Inr (v, r')"
    by (auto simp add: fromBufferInternalObjectHelper_def andThen_Inr_iff)
  obtain nm r2 where 2: "BufferReader_string len r1 = (nm, r2)"
    by (cases "BufferReader_string len r1")
  have 3: "fromBufferInternalObjectHelper_scan hs nm r2 = Inr (v, r')"
    using c 2 by simp
  show ?thesis
    using size_advances[OF 1] string_advances[OF 2] scan_advances[OF assms(1) 3] by simp
qed

lemma regexp_advances:
  assumes "fromBufferInternalObjectRegExp fl r = Inr (v, r')"
  shows "readBuffer r' = readBuffer r \<and> offset r < offset r'"
proof -
  from assms obtain len r1 where 1: "BufferReader_size r = Inr (len, r1)"
    and c: "(case BufferReader_string len r1 of
               (pattern, r2) \<Rightarrow>
                 andThen (BufferReader_uint8 r2) (\<lambda>(flags, r3).
                 case regExpSource fl pattern of
                   None \<Rightarrow> Inl SyntaxError
                 | Some source \<Rightarrow>
                     Inr (VRegExp source (flags AND 0x01 \<noteq> 0) (flags AND 0x02 \<noteq> 0)
                            (flags AND 0x04 \<noteq> 0), r3))) = Inr (v, r')"
    by (auto simp add: fromBufferInternalObjectRegExp_def andThen_Inr_iff)
  obtain nm r2 where 2: "BufferReader_string len r1 = (nm, r2)"
    by (cases "BufferReader_string len r1")
  obtain f where 3: "BufferReader_uint8 r2 = Inr (f, r')"
    using c 2 by (auto simp add: andThen_Inr_iff split: option.splits)
  show ?thesis
    using size_advances[OF 1] string_advances[OF 2] uint8_advances[OF 3] by simp
qed

lemma dateD_advances:
  assumes "fromBufferInternalObjectDateD r = Inr (v, r')"
  shows "readBuffer r' = readBuffer r \<and> offset r < offset r'"
proof -
  from assms obtain s r1 m where 1: "BufferReader_uint32 r = Inr (s, r1)"
    and 2: "BufferReader_uint16 r1 = Inr (m, r')"
    by (auto simp add: fromBufferInternalObjectDateD_def andThen_Inr_iff)
  show ?thesis using uint32_advances[OF 1] uint16_advances[OF 2] by simp
qed

lemma dateT_advances:
  assumes "fromBufferInternalObjectDateT r = Inr (v, r')"
  shows "readBuffer r' = readBuffer r \<and> offset r < offset r'"
  using assms
  by (auto simp add: fromBufferInternalObjectDateT_def andThen_Inr_iff dest!: uint32_advances)

lemma fromBufferInternal_advances_step:
  assumes hs: "helpersAdvance hs"
    and D: "\<And>r acc v r'. fromBufferInternalArrayDense n fl hs r acc = Some (Inr (v, r'))
              \<Longrightarrow> readBuffer r' = readBuffer r \<and> offset r < offset r'"
    and S: "\<And>r acc v r'. fromBufferInternalArraySparse n fl hs r acc = Some (Inr (v, r'))
              \<Longrightarrow> readBuffer r' = readBuffer r \<and> offset r < offset r'"
    and O: "\<And>r acc v r'. fromBufferInternalObjectGeneric n fl hs r acc = Some (Inr (v, r'))
              \<Longrightarrow> readBuffer r' = readBuffer r \<and> offset r < offset r'"
    and eq: "fromBufferInternal (Suc n) fl hs r = Some (Inr (v, r'))"
  shows "readBuffer r' = readBuffer r \<and> offset r < offset r'"
proof -
  obtain code r1 where u: "BufferReader_uint8 r = Inr (code, r1)"
    using eq by (cases "BufferReader_uint8 r") (auto simp add: fromBufferInternal.simps)
  note r1 = uint8_advances[OF u]
  have "readBuffer r' = readBuffer r1 \<and> offset r1 \<le> offset r'"
    using eq unfolding fromBufferInternal.simps u
    by (auto simp add: andThen_Inr_iff BufferReader_buffer_def BufferReader_string_def
        split: if_splits
        dest!: uint8_advances uint16_advances uint32_advances double_advances size_advances
          dateD_advances dateT_advances regexp_advances helper_advances[OF hs] D S O)
  then show ?thesis using r1 by simp
qed

lemma dense_advances_step:
  assumes I: "\<And>r v r'. fromBufferInternal n fl hs r = Some (Inr (v, r'))
              \<Longrightarrow> readBuffer r' = readBuffer r \<and> offset r < offset r'"
    and D: "\<And>r acc v r'. fromBufferInternalArrayDense n fl hs r acc = Some (Inr (v, r'))
              \<Longrightarrow> readBuffer r' = readBuffer r \<and> offset r < offset r'"
    and eq: "fromBufferInternalArrayDense (Suc n) fl hs r acc = Some (Inr (v, r'))"
  shows "readBuffer r' = readBuffer r \<and> offset r < offset r'"
proof -
  obtain b where p: "BufferReader_peek r = Inr b"
    using eq by (cases "BufferReader_peek r") (auto simp add: fromBufferInternalArrayDense.simps)
  show ?thesis
  proof (cases "b = 0x21")
    case True
    then show ?thesis
      using eq by (auto simp add: fromBufferInternalArrayDense.simps p BufferReader_skip_def)
  next
    case False
    then obtain x r1 where 1: "fromBufferInternal n fl hs r = Some (Inr (x, r1))"
      and 2: "fromBufferInternalArrayDense n fl hs r1 (acc @ [Some x]) = Some (Inr (v, r'))"
      using eq by (auto simp add: fromBufferInternalArrayDense.simps p andThenF_Some_Inr_iff)
    show ?thesis using I[OF 1] D[OF 2] by simp
  qed
qed

lemma sparse_advances_step:
  assumes I: "\<And>r v r'. fromBufferInternal n fl hs r = Some (Inr (v, r'))
              \<Longrightarrow> readBuffer r' = readBuffer r \<and> offset r < offset r'"
    and S: "\<And>r acc v r'. fromBufferInternalArraySparse n fl hs r acc = Some (Inr (v, r'))
              \<Longrightarrow> readBuffer r' = readBuffer r \<and> offset r < offset r'"
    and eq: "fromBufferInternalArraySparse (Suc n) fl hs r acc = Some (Inr (v, r'))"
  shows "readBuffer r' = readBuffer r \<and> offset r < offset r'"
proof -
  obtain b where p: "BufferReader_peek r = Inr b"
    using eq by (cases "BufferReader_peek r") (auto simp add: fromBufferInternalArraySparse.simps)
  show ?thesis
  proof (cases "b = 0x21")
    case True
    then show ?thesis
      using eq by (auto simp add: fromBufferInternalArraySparse.simps p BufferReader_skip_def)
  next
    case False
    then have e: "andThenF (fromBufferInternal n fl hs r) (\<lambda>(key, r1).
            andThenF (fromBufferInternal n fl hs r1) (\<lambda>(v, r2).
            case setArrayProperty key v acc of
              Inl e \<Rightarrow> Some (Inl e)
            | Inr result' \<Rightarrow> fromBufferInternalArraySparse n fl hs r2 result'))
          = Some (Inr (v, r'))"
      using eq by (simp add: fromBufferInternalArraySparse.simps p)
    from e obtain kr where 1: "fromBufferInternal n fl hs r = Some (Inr kr)"
      and e1: "andThenF (fromBufferInternal n fl hs (snd kr)) (\<lambda>(v, r2).
            case setArrayProperty (fst kr) v acc of
              Inl e \<Rightarrow> Some (Inl e)
            | Inr result' \<Rightarrow> fromBufferInternalArraySparse n fl hs r2 result')
          = Some (Inr (v, r'))"
      by (rule andThenF_Some_InrE) (simp add: case_prod_beta)
    from e1 obtain xr where 2: "fromBufferInternal n fl hs (snd kr) = Some (Inr xr)"
      and e2: "(case setArrayProperty (fst kr) (fst xr) acc of
              Inl e \<Rightarrow> Some (Inl e)
            | Inr result' \<Rightarrow> fromBufferInternalArraySparse n fl hs (snd xr) result')
          = Some (Inr (v, r'))"
      by (rule andThenF_Some_InrE) (simp add: case_prod_beta)
    from e2 obtain acc' where 3: "fromBufferInternalArraySparse n fl hs (snd xr) acc' = Some (Inr (v, r'))"
      by (cases "setArrayProperty (fst kr) (fst xr) acc") simp_all
    obtain k r1 x r2 where kr: "kr = (k, r1)" "xr = (x, r2)" by (cases kr, cases xr)
    note 1 = 1[unfolded kr] and 2 = 2[unfolded kr snd_conv] and 3 = 3[unfolded kr snd_conv]
    show ?thesis using I[OF 1] I[OF 2] S[OF 3] by simp
  qed
qed

lemma object_advances_step:
  assumes I: "\<And>r v r'. fromBufferInternal n fl hs r = Some (Inr (v, r'))
              \<Longrightarrow> readBuffer r' = readBuffer r \<and> offset r < offset r'"
    and O: "\<And>r acc v r'. fromBufferInternalObjectGeneric n fl hs r acc = Some (Inr (v, r'))
              \<Longrightarrow> readBuffer r' = readBuffer r \<and> offset r < offset r'"
    and eq: "fromBufferInternalObjectGeneric (Suc n) fl hs r acc = Some (Inr (v, r'))"
  shows "readBuffer r' = readBuffer r \<and> offset r < offset r'"
proof -
  obtain b where p: "BufferReader_peek r = Inr b"
    using eq by (cases "BufferReader_peek r") (auto simp add: fromBufferInternalObjectGeneric.simps)
  show ?thesis
  proof (cases "b = 0x21")
    case True
    then show ?thesis
      using eq by (auto simp add: fromBufferInternalObjectGeneric.simps p BufferReader_skip_def)
  next
    case False
    then have e: "andThenF (fromBufferInternal n fl hs r) (\<lambda>(key, r1).
            andThenF (fromBufferInternal n fl hs r1) (\<lambda>(v, r2).
            case setObjectProperty key v acc of
              Inl e \<Rightarrow> Some (Inl e)
            | Inr result' \<Rightarrow> fromBufferInternalObjectGeneric n fl hs r2 result'))
          = Some (Inr (v, r'))"
      using eq by (simp add: fromBufferInternalObjectGeneric.simps p)
    from e obtain kr where 1: "fromBufferInternal n fl hs r = Some (Inr kr)"
      and e1: "andThenF (fromBufferInternal n fl hs (snd kr)) (\<lambda>(v, r2).
            case setObjectProperty (fst kr) v acc of
              Inl e \<Rightarrow> Some (Inl e)
            | Inr result' \<Rightarrow> fromBufferInternalObjectGeneric n fl hs r2 result')
          = Some (Inr (v, r'))"
      by (rule andThenF_Some_InrE) (simp add: case_prod_beta)
    from e1 obtain xr where 2: "fromBufferInternal n fl hs (snd kr) = Some (Inr xr)"
      and e2: "(case setObjectProperty (fst kr) (fst xr) acc of
              Inl e \<Rightarrow> Some (Inl e)
            | Inr result' \<Rightarrow> fromBufferInternalObjectGeneric n fl hs (snd xr) result')
          = Some (Inr (v, r'))"
      by (rule andThenF_Some_InrE) (simp add: case_prod_beta)
    from e2 obtain acc' where 3: "fromBufferInternalObjectGeneric n fl hs (snd xr) acc' = Some (Inr (v, r'))"
      by (cases "setObjectProperty (fst kr) (fst xr) acc") simp_all
    obtain k r1 x r2 where kr: "kr = (k, r1)" "xr = (x, r2)" by (cases kr, cases xr)
    note 1 = 1[unfolded kr] and 2 = 2[unfolded kr snd_conv] and 3 = 3[unfolded kr snd_conv]
    show ?thesis using I[OF 1] I[OF 2] O[OF 3] by simp
  qed
qed

lemma decoder_advances:
  assumes hs: "helpersAdvance hs"
  shows "(\<forall>r v r'. fromBufferInternal n fl hs r = Some (Inr (v, r'))
            \<longrightarrow> readBuffer r' = readBuffer r \<and> offset r < offset r')
    \<and> (\<forall>r acc v r'. fromBufferInternalArrayDense n fl hs r acc = Some (Inr (v, r'))
            \<longrightarrow> readBuffer r' = readBuffer r \<and> offset r < offset r')
    \<and> (\<forall>r acc v r'. fromBufferInternalArraySparse n fl hs r acc = Some (Inr (v, r'))
            \<longrightarrow> readBuffer r' = readBuffer r \<and> offset r < offset r')
    \<and> (\<forall>r acc v r'. fromBufferInternalObjectGeneric n fl hs r acc = Some (Inr (v, r'))
            \<longrightarrow> readBuffer r' = readBuffer r \<and> offset r < offset r')"
proof (induction n)
  case 0
  show ?case
    by (simp add: fromBufferInternal.simps fromBufferInternalArrayDense.simps
        fromBufferInternalArraySparse.simps fromBufferInternalObjectGeneric.simps)
next
  case (Suc n)
  have I: "readBuffer r' = readBuffer r \<and> offset r < offset r'"
    if "fromBufferInternal n fl hs r = Some (Inr (v, r'))" for r v r'
    using Suc that by blast
  have D: "readBuffer r' = readBuffer r \<and> offset r < offset r'"
    if "fromBufferInternalArrayDense n fl hs r acc = Some (Inr (v, r'))" for r acc v r'
    using Suc that by blast
  have S: "readBuffer r' = readBuffer r \<and> offset r < offset r'"
    if "fromBufferInternalArraySparse n fl hs r acc = Some (Inr (v, r'))" for r acc v r'
    using Suc that by blast
  have O: "readBuffer r' = readBuffer r \<and> offset r < offset r'"
    if "fromBufferInternalObjectGeneric n fl hs r acc = Some (Inr (v, r'))" for r acc v r'
    using Suc that by blast
  have I': "readBuffer r' = readBuffer r \<and> offset r < offset r'"
    if "fromBufferInternal (Suc n) fl hs r = Some (Inr (v, r'))" for r v r'
    by (rule fromBufferInternal_advances_step[OF hs _ _ _ that]; rule D S O; assumption)
  have D': "readBuffer r' = readBuffer r \<and> offset r < offset r'"
    if "fromBufferInternalArrayDense (Suc n) fl hs r acc = Some (Inr (v, r'))" for r acc v r'
    by (rule dense_advances_step[OF _ _ that]; rule I D; assumption)
  have S': "readBuffer r' = readBuffer r \<and> offset r < offset r'"
    if "fromBufferInternalArraySparse (Suc n) fl hs r acc = Some (Inr (v, r'))" for r acc v r'
    by (rule sparse_advances_step[OF _ _ that]; rule I S; assumption)
  have O': "readBuffer r' = readBuffer r \<and> offset r < offset r'"
    if "fromBufferInternalObjectGeneric (Suc n) fl hs r acc = Some (Inr (v, r'))" for r acc v r'
    by (rule object_advances_step[OF _ _ that]; rule I O; assumption)
  show ?case using I' D' S' O' by blast
qed




end
